theory Spec2Isabelle
  imports Main
begin

section \<open>Strings\<close>

text \<open>
  A JavaScript string is a sequence of UTF-16 code units.  A code unit is modelled by its
  number; an ASCII literal of the source is written \<open>js ''...''\<close>, any other literal is
  given by its code units.
\<close>

type_synonym jsstring = "nat list"

definition js :: "string \<Rightarrow> jsstring" where
  "js s = map of_char s"

text \<open>
  The characters that both \<^verbatim>\<open>String.prototype.trim\<close> and the class \<^verbatim>\<open>\s\<close> of a regular
  expression treat as white space: the WhiteSpace and LineTerminator code points of
  ECMAScript (TAB, LF, VT, FF, CR, SP, NBSP, U+1680, U+2000..U+200A, U+2028, U+2029,
  U+202F, U+205F, U+3000, U+FEFF).
\<close>

definition is_ws :: "nat \<Rightarrow> bool" where
  "is_ws c \<longleftrightarrow>
     (9 \<le> c \<and> c \<le> 13) \<or> c = 32 \<or> c = 160 \<or> c = 5760 \<or> (8192 \<le> c \<and> c \<le> 8202) \<or>
     c = 8232 \<or> c = 8233 \<or> c = 8239 \<or> c = 8287 \<or> c = 12288 \<or> c = 65279"

text \<open>The class \<^verbatim>\<open>\d\<close>: the ten ASCII digits.\<close>

definition is_digit :: "nat \<Rightarrow> bool" where
  "is_digit c \<longleftrightarrow> 48 \<le> c \<and> c \<le> 57"

text \<open>\<^verbatim>\<open>value.trim()\<close>: white space is removed at both ends.\<close>

definition trim :: "jsstring \<Rightarrow> jsstring" where
  "trim v = rev (dropWhile is_ws (rev (dropWhile is_ws v)))"

section \<open>Regular expressions\<close>

text \<open>
  The two patterns of \<^verbatim>\<open>validateField\<close> are built from character classes, sequencing and
  the quantifier \<^verbatim>\<open>+\<close>.  Both are anchored by \<^verbatim>\<open>^\<close> and \<^verbatim>\<open>$\<close> and carry no flag, so
  \<^verbatim>\<open>regex.test(s)\<close> holds exactly when the whole of \<open>s\<close> is matched.  The matcher consumes
  the subject one code unit at a time and keeps the pattern that the rest has to match.
\<close>

datatype regex =
    Never
  | Empty
  | Class "nat \<Rightarrow> bool"
  | Or regex regex
  | Then regex regex
  | Many regex

definition OneOrMore :: "regex \<Rightarrow> regex" where
  "OneOrMore r = Then r (Many r)"

fun accepts_empty :: "regex \<Rightarrow> bool" where
  "accepts_empty Never = False"
| "accepts_empty Empty = True"
| "accepts_empty (Class p) = False"
| "accepts_empty (Or r s) = (accepts_empty r \<or> accepts_empty s)"
| "accepts_empty (Then r s) = (accepts_empty r \<and> accepts_empty s)"
| "accepts_empty (Many r) = True"

fun after :: "nat \<Rightarrow> regex \<Rightarrow> regex" where
  "after c Never = Never"
| "after c Empty = Never"
| "after c (Class p) = (if p c then Empty else Never)"
| "after c (Or r s) = Or (after c r) (after c s)"
| "after c (Then r s) =
     (if accepts_empty r then Or (Then (after c r) s) (after c s) else Then (after c r) s)"
| "after c (Many r) = Then (after c r) (Many r)"

fun test :: "regex \<Rightarrow> jsstring \<Rightarrow> bool" where
  "test r [] = accepts_empty r"
| "test r (c # cs) = test (after c r) cs"

text \<open>\<^verbatim>\<open>[^\s@]\<close>, \<^verbatim>\<open>@\<close>, \<^verbatim>\<open>\.\<close> and \<^verbatim>\<open>[\d\s\-\+\(\)]\<close>.\<close>

definition not_ws_at :: "nat \<Rightarrow> bool" where
  "not_ws_at c \<longleftrightarrow> \<not> is_ws c \<and> c \<noteq> 64"

definition phone_class :: "nat \<Rightarrow> bool" where
  "phone_class c \<longleftrightarrow> is_digit c \<or> is_ws c \<or> c = 45 \<or> c = 43 \<or> c = 40 \<or> c = 41"

text \<open>\<^verbatim>\<open>/^[^\s@]+@[^\s@]+\.[^\s@]+$/\<close>\<close>

definition emailRegex :: regex where
  "emailRegex =
     Then (OneOrMore (Class not_ws_at))
       (Then (Class (\<lambda>c. c = 64))
         (Then (OneOrMore (Class not_ws_at))
           (Then (Class (\<lambda>c. c = 46))
             (OneOrMore (Class not_ws_at)))))"

text \<open>\<^verbatim>\<open>/^[\d\s\-\+\(\)]+$/\<close>\<close>

definition phoneRegex :: regex where
  "phoneRegex = OneOrMore (Class phone_class)"

section \<open>The field validator\<close>

text \<open>
  What \<^verbatim>\<open>validateField\<close> reads of a form control: \<^verbatim>\<open>field.value\<close>, \<^verbatim>\<open>field.type\<close> and
  \<^verbatim>\<open>field.hasAttribute('required')\<close>; the name of the control; what \<^verbatim>\<open>form.reset()\<close>
  reads: its default value; and what \<^verbatim>\<open>showFieldValidation\<close> reads and writes: the parent
  node (a number stands for the element) and the class \<^verbatim>\<open>error\<close> of the control.
\<close>

record field =
  fname :: jsstring
  fvalue :: jsstring
  fdefault :: jsstring
  ftype :: string
  required :: bool
  parent :: nat
  errorClass :: bool

text \<open>The three messages of \<^verbatim>\<open>validateField\<close>, as code units.\<close>

definition msg_required :: jsstring where
  "msg_required = [27492, 23383, 27573, 20026, 24517, 22635, 39033]"

definition msg_email :: jsstring where
  "msg_email = [35831, 36755, 20837, 26377, 25928, 30340, 37038, 31665, 22320, 22336]"

definition msg_tel :: jsstring where
  "msg_tel = [35831, 36755, 20837, 26377, 25928, 30340, 30005, 35805, 21495, 30721]"

text \<open>
  The verdict of \<^verbatim>\<open>validateField\<close>: the values of \<^verbatim>\<open>isValid\<close> and \<^verbatim>\<open>message\<close> when
  \<^verbatim>\<open>showFieldValidation\<close> is called.  An empty string is falsy.
\<close>

definition validate :: "field \<Rightarrow> bool \<times> jsstring" where
  "validate f =
     (let v = trim (fvalue f) in
      if required f \<and> v = [] then (False, msg_required)
      else if v \<noteq> [] then
        (if ftype f = ''email'' then
           (if \<not> test emailRegex v then (False, msg_email) else (True, []))
         else if ftype f = ''tel'' then
           (if \<not> test phoneRegex v then (False, msg_tel) else (True, []))
         else (True, []))
      else (True, []))"

section \<open>The page: form, submit control, toasts, timers\<close>

text \<open>
  One form and what \<^verbatim>\<open>FormHandler\<close> touches on the page.

  \<^item> \<open>inputs\<close>: the controls found by \<^verbatim>\<open>form.querySelectorAll('input, textarea, select')\<close>,
    in document order; a control is named by its position in this list.
  \<^item> \<open>fieldErrors p\<close>: the text of the \<^verbatim>\<open>.field-error\<close> elements found under the element
    \<open>p\<close>, in document order; \<^verbatim>\<open>field.parentNode.querySelector('.field-error')\<close> is the first.
    The parent elements of the controls are taken to be disjoint: none lies inside
    another, so an error element under one of them is under no other.
  \<^item> \<open>submitBtn\<close>: the result of \<^verbatim>\<open>form.querySelector('[type="submit"]')\<close>, \<open>None\<close> for
    \<^verbatim>\<open>null\<close>.
  \<^item> \<open>action\<close>: \<^verbatim>\<open>form.action\<close>.
  \<^item> \<open>fetchCalls\<close>: the calls of \<^verbatim>\<open>fetch\<close> made so far, each with its URL and its body.
  \<^item> \<open>pending\<close>: the calls of \<^verbatim>\<open>submitForm\<close> suspended at \<^verbatim>\<open>await fetch(...)\<close>, oldest
    first; each holds its local \<^verbatim>\<open>originalText\<close>.
  \<^item> \<open>toasts\<close>: the elements made by \<^verbatim>\<open>showMessage\<close>, in order of creation.
  \<^item> \<open>clock\<close>, \<open>timers\<close>, \<open>nextHandle\<close>: the time in milliseconds, the timers set by
    \<^verbatim>\<open>setTimeout\<close> and not yet run or cleared, and the next timer handle.
  \<^item> \<open>debounceTimeout i\<close>: the variable \<^verbatim>\<open>timeout\<close> in the closure that \<^verbatim>\<open>utils.debounce\<close>
    returned for the \<^verbatim>\<open>input\<close> listener of control \<open>i\<close>; \<open>None\<close> for \<^verbatim>\<open>undefined\<close>.
  \<^item> \<open>fired\<close>: the timer callbacks the event loop has run, each with the time it ran at.
  \<^item> \<open>validated\<close>: the calls of \<^verbatim>\<open>validateField\<close> made so far, each with the time of the call
    and the control it was called on.
\<close>

record button =
  disabled :: bool
  textContent :: jsstring

record toast =
  ttext :: jsstring
  tclass :: jsstring
  shown :: bool
  attached :: bool

datatype action = Later nat | ToastShow nat | ToastHide nat | ToastRemove nat

text \<open>
  The body of a request is the object \<^verbatim>\<open>new FormData(form)\<close>.  The browser builds its entry
  list from the controls of the form as they are at that moment; the object is kept as
  those controls, and which of them the browser enters is left open.
\<close>

datatype body = FormData "field list"

record timer =
  handle :: nat
  due :: nat
  act :: action

record page =
  inputs :: "field list"
  fieldErrors :: "nat \<Rightarrow> jsstring list"
  submitBtn :: "button option"
  action :: jsstring
  fetchCalls :: "(jsstring \<times> body) list"
  pending :: "jsstring list"
  toasts :: "toast list"
  clock :: nat
  timers :: "timer list"
  nextHandle :: nat
  debounceTimeout :: "nat \<Rightarrow> nat option"
  fired :: "(nat \<times> action) list"
  validated :: "(nat \<times> nat) list"

text \<open>The other string literals of \<^verbatim>\<open>FormHandler\<close>: the busy label and the two toasts.\<close>

definition msg_busy :: jsstring where
  "msg_busy = [25552, 20132, 20013, 46, 46, 46]"

definition msg_success :: jsstring where
  "msg_success = [34920, 21333, 25552, 20132, 25104, 21151, 65281]"

definition msg_failure :: jsstring where
  "msg_failure = [25552, 20132, 22833, 36133, 65292, 35831, 31245, 21518, 37325, 35797]"

definition map_at :: "nat \<Rightarrow> ('a \<Rightarrow> 'a) \<Rightarrow> 'a list \<Rightarrow> 'a list" where
  "map_at i g xs = (if i < length xs then xs[i := g (xs ! i)] else xs)"

subsection \<open>Timers\<close>

definition setTimeout :: "action \<Rightarrow> nat \<Rightarrow> page \<Rightarrow> nat \<times> page" where
  "setTimeout a ms s =
     (nextHandle s,
      s\<lparr>timers := timers s @ [\<lparr>handle = nextHandle s, due = clock s + ms, act = a\<rparr>],
        nextHandle := Suc (nextHandle s)\<rparr>)"

definition clearTimeout :: "nat option \<Rightarrow> page \<Rightarrow> page" where
  "clearTimeout h s =
     (case h of
        None \<Rightarrow> s
      | Some k \<Rightarrow> s\<lparr>timers := filter (\<lambda>t. handle t \<noteq> k) (timers s)\<rparr>)"

subsection \<open>Inline errors\<close>

text \<open>
  \<^verbatim>\<open>showFieldValidation\<close>.  The error element is looked up under the parent of the control;
  a new one is appended to the parent, an existing one gets the new text or is removed.
\<close>

definition showFieldValidation :: "nat \<Rightarrow> bool \<Rightarrow> jsstring \<Rightarrow> page \<Rightarrow> page" where
  "showFieldValidation i isValid message s =
     (let p = parent (inputs s ! i);
          errorElement = fieldErrors s p
      in if \<not> isValid then
           (let s1 = s\<lparr>inputs := map_at i (\<lambda>f. f\<lparr>errorClass := True\<rparr>) (inputs s)\<rparr>
            in case errorElement of
                 [] \<Rightarrow> s1\<lparr>fieldErrors := (fieldErrors s1)(p := fieldErrors s1 p @ [message])\<rparr>
               | e # es \<Rightarrow> s1\<lparr>fieldErrors := (fieldErrors s1)(p := message # es)\<rparr>)
         else
           (let s1 = s\<lparr>inputs := map_at i (\<lambda>f. f\<lparr>errorClass := False\<rparr>) (inputs s)\<rparr>
            in case errorElement of
                 [] \<Rightarrow> s1
               | e # es \<Rightarrow> s1\<lparr>fieldErrors := (fieldErrors s1)(p := es)\<rparr>))"

text \<open>\<^verbatim>\<open>validateField\<close>; the call is recorded in \<open>validated\<close>.\<close>

definition validateField :: "nat \<Rightarrow> page \<Rightarrow> bool \<times> page" where
  "validateField i s =
     (let (isValid, message) = validate (inputs s ! i)
      in (isValid,
          showFieldValidation i isValid message
            (s\<lparr>validated := validated s @ [(clock s, i)]\<rparr>)))"

text \<open>\<^verbatim>\<open>validateForm\<close>: every control is validated, in order; none is skipped.\<close>

fun validateInputs :: "nat list \<Rightarrow> bool \<Rightarrow> page \<Rightarrow> bool \<times> page" where
  "validateInputs [] isValid s = (isValid, s)"
| "validateInputs (i # rest) isValid s =
     (let (ok, s1) = validateField i s
      in validateInputs rest (if \<not> ok then False else isValid) s1)"

definition validateForm :: "page \<Rightarrow> bool \<times> page" where
  "validateForm s = validateInputs [0..<length (inputs s)] True s"

subsection \<open>Toasts\<close>

text \<open>
  \<^verbatim>\<open>showMessage\<close>: the element is appended to the body without the class \<^verbatim>\<open>show\<close>, and two
  timers are set, both counted from now.
\<close>

definition showMessage :: "jsstring \<Rightarrow> jsstring \<Rightarrow> page \<Rightarrow> page" where
  "showMessage text type s =
     (let k = length (toasts s);
          s1 = s\<lparr>toasts := toasts s @
                 [\<lparr>ttext = text, tclass = js ''form-message '' @ type, shown = False,
                   attached = True\<rparr>]\<rparr>;
          s2 = snd (setTimeout (ToastShow k) 100 s1)
      in snd (setTimeout (ToastHide k) 3000 s2))"

subsection \<open>Submission\<close>

text \<open>\<^verbatim>\<open>form.action || '/contact'\<close>: an empty string is falsy.\<close>

definition endpoint :: "page \<Rightarrow> jsstring" where
  "endpoint s = (if action s \<noteq> [] then action s else js ''/contact'')"

text \<open>
  \<^verbatim>\<open>submitForm\<close> up to \<^verbatim>\<open>await fetch(...)\<close>.  Without a submit control, reading
  \<^verbatim>\<open>submitBtn.textContent\<close> throws before the \<^verbatim>\<open>try\<close>: the promise of \<^verbatim>\<open>submitForm\<close> is
  rejected, nothing else happens.
\<close>

definition submitForm :: "page \<Rightarrow> page" where
  "submitForm s =
     (case submitBtn s of
        None \<Rightarrow> s
      | Some b \<Rightarrow>
          s\<lparr>submitBtn := Some (b\<lparr>disabled := True, textContent := msg_busy\<rparr>),
            fetchCalls := fetchCalls s @ [(endpoint s, FormData (inputs s))],
            pending := pending s @ [textContent b]\<rparr>)"

text \<open>
  How the promise of \<^verbatim>\<open>fetch\<close> settles: with a response, whose \<^verbatim>\<open>ok\<close> is given, or by
  rejection.
\<close>

datatype outcome = Resolved bool | Rejected

text \<open>\<^verbatim>\<open>form.reset()\<close>: every control goes back to its default value.\<close>

definition reset :: "page \<Rightarrow> page" where
  "reset s = s\<lparr>inputs := map (\<lambda>f. f\<lparr>fvalue := fdefault f\<rparr>) (inputs s)\<rparr>"

text \<open>
  The rest of \<^verbatim>\<open>submitForm\<close>, run when the \<open>k\<close>-th pending call is resumed with outcome
  \<open>r\<close>: the branch for \<^verbatim>\<open>response.ok\<close>, the \<^verbatim>\<open>catch\<close> block for the error thrown otherwise
  and for a rejection, then the \<^verbatim>\<open>finally\<close> block.
\<close>

definition resume :: "nat \<Rightarrow> outcome \<Rightarrow> page \<Rightarrow> page" where
  "resume k r s =
     (if k < length (pending s) then
        (let originalText = pending s ! k;
             s0 = s\<lparr>pending := take k (pending s) @ drop (Suc k) (pending s)\<rparr>;
             s1 = (case r of
                     Resolved True \<Rightarrow> reset (showMessage msg_success (js ''success'') s0)
                   | Resolved False \<Rightarrow> showMessage msg_failure (js ''error'') s0
                   | Rejected \<Rightarrow> showMessage msg_failure (js ''error'') s0)
         in s1\<lparr>submitBtn :=
                 map_option (\<lambda>b. b\<lparr>disabled := False, textContent := originalText\<rparr>)
                   (submitBtn s1)\<rparr>)
      else s)"

text \<open>\<^verbatim>\<open>handleSubmit\<close>, after \<^verbatim>\<open>e.preventDefault()\<close>.\<close>

definition handleSubmit :: "page \<Rightarrow> page" where
  "handleSubmit s =
     (let (ok, s1) = validateForm s
      in if ok then submitForm s1 else s1)"

subsection \<open>Debounced validation\<close>

text \<open>
  \<^verbatim>\<open>utils.debounce(() => this.validateField(input), 300)\<close> for control \<open>i\<close>:
  \<open>executedFunction\<close> is the function returned, \<open>later\<close> the callback it hands to
  \<^verbatim>\<open>setTimeout\<close>.
\<close>

definition later :: "nat \<Rightarrow> page \<Rightarrow> page" where
  "later i s = snd (validateField i (clearTimeout (debounceTimeout s i) s))"

definition executedFunction :: "nat \<Rightarrow> page \<Rightarrow> page" where
  "executedFunction i s =
     (let s1 = clearTimeout (debounceTimeout s i) s;
          (h, s2) = setTimeout (Later i) 300 s1
      in s2\<lparr>debounceTimeout := (debounceTimeout s2)(i := Some h)\<rparr>)"

subsection \<open>The event loop\<close>

text \<open>
  The callbacks held by timers.  A callback \<open>Later i\<close> exists for the controls of the form
  only.
\<close>

definition run_action :: "action \<Rightarrow> page \<Rightarrow> page" where
  "run_action a s =
     (case a of
        Later i \<Rightarrow> if i < length (inputs s) then later i s else s
      | ToastShow k \<Rightarrow> s\<lparr>toasts := map_at k (\<lambda>m. m\<lparr>shown := True\<rparr>) (toasts s)\<rparr>
      | ToastHide k \<Rightarrow>
          snd (setTimeout (ToastRemove k) 300
                 (s\<lparr>toasts := map_at k (\<lambda>m. m\<lparr>shown := False\<rparr>) (toasts s)\<rparr>))
      | ToastRemove k \<Rightarrow> s\<lparr>toasts := map_at k (\<lambda>m. m\<lparr>attached := False\<rparr>) (toasts s)\<rparr>)"

text \<open>
  A timer that is due runs once, unless it was cleared in the meantime; it leaves the
  table when it runs.
\<close>

definition fire :: "page \<Rightarrow> timer \<Rightarrow> page" where
  "fire s t =
     (if t \<in> set (timers s) then
        run_action (act t)
          (s\<lparr>timers := filter (\<lambda>u. handle u \<noteq> handle t) (timers s),
             fired := fired s @ [(clock s, act t)]\<rparr>)
      else s)"

text \<open>One millisecond passes; the timers that are due run in the order they were set.\<close>

definition tick :: "page \<Rightarrow> page" where
  "tick s =
     (let s1 = s\<lparr>clock := Suc (clock s)\<rparr>
      in foldl fire s1 (filter (\<lambda>t. due t \<le> clock s1) (timers s1)))"

text \<open>
  What can happen to the page: a control loses focus; the user changes the value of a
  control, which raises \<^verbatim>\<open>input\<close>; the form is submitted; the \<open>k\<close>-th pending \<^verbatim>\<open>fetch\<close>
  settles; a millisecond passes.
\<close>

datatype event = Blur nat | Input nat jsstring | Submit | Settle nat outcome | Tick

definition step :: "page \<Rightarrow> event \<Rightarrow> page" where
  "step s e =
     (case e of
        Blur i \<Rightarrow> if i < length (inputs s) then snd (validateField i s) else s
      | Input i v \<Rightarrow>
          if i < length (inputs s)
          then executedFunction i (s\<lparr>inputs := map_at i (\<lambda>f. f\<lparr>fvalue := v\<rparr>) (inputs s)\<rparr>)
          else s
      | Submit \<Rightarrow> handleSubmit s
      | Settle k r \<Rightarrow> resume k r s
      | Tick \<Rightarrow> tick s)"

definition run :: "page \<Rightarrow> event list \<Rightarrow> page" where
  "run s es = foldl step s es"

section \<open>The shapes the specification names\<close>

text \<open>
  The e-mail shape \<open>local@domain.tld\<close> in the words of the specification: three non-empty
  runs of characters that are neither white space nor \<open>@\<close>, joined by one \<open>@\<close> and one
  dot.  The telephone shape: every character is a digit, white space, or one of
  \<open>-\<close>, \<open>+\<close>, \<open>(\<close>, \<open>)\<close>.
\<close>

definition email_part :: "jsstring \<Rightarrow> bool" where
  "email_part x \<longleftrightarrow> x \<noteq> [] \<and> (\<forall>c\<in>set x. \<not> is_ws c \<and> c \<noteq> 64)"

definition email_shape :: "jsstring \<Rightarrow> bool" where
  "email_shape v \<longleftrightarrow>
     (\<exists>l d t. v = l @ js ''@'' @ d @ js ''.'' @ t \<and> email_part l \<and> email_part d \<and> email_part t)"

definition tel_shape :: "jsstring \<Rightarrow> bool" where
  "tel_shape v \<longleftrightarrow> (\<forall>c\<in>set v. is_digit c \<or> is_ws c \<or> c \<in> set (js ''-+()''))"

section \<open>The words a pattern matches\<close>

text \<open>The set of strings a pattern denotes; the matcher decides membership in it.\<close>

inductive_set reps :: "jsstring set \<Rightarrow> jsstring set" for L :: "jsstring set" where
  reps_none: "[] \<in> reps L"
| reps_more: "u \<in> L \<Longrightarrow> v \<in> reps L \<Longrightarrow> u @ v \<in> reps L"

fun lang :: "regex \<Rightarrow> jsstring set" where
  "lang Never = {}"
| "lang Empty = {[]}"
| "lang (Class p) = {[c] | c. p c}"
| "lang (Or r s) = lang r \<union> lang s"
| "lang (Then r s) = {u @ v | u v. u \<in> lang r \<and> v \<in> lang s}"
| "lang (Many r) = reps (lang r)"

section \<open>Notions used to state the properties\<close>



text \<open>The events that neither submit the form nor settle a \<^verbatim>\<open>fetch\<close>.\<close>

definition quiet :: "event \<Rightarrow> bool" where
  "quiet e = (case e of Submit \<Rightarrow> False | Settle k r \<Rightarrow> False | _ \<Rightarrow> True)"



text \<open>The values of the controls, and the toast element as \<^verbatim>\<open>showMessage\<close> creates it.\<close>

definition field_values :: "page \<Rightarrow> jsstring list" where
  "field_values s = map fvalue (inputs s)"

definition new_toast :: "jsstring \<Rightarrow> string \<Rightarrow> toast" where
  "new_toast x y = \<lparr>ttext = x, tclass = js ''form-message '' @ js y, shown = False, attached = True\<rparr>"

text \<open>
  The page with everything that validation writes taken away: the class \<^verbatim>\<open>error\<close> of the
  controls, the error elements and the record of the calls.
\<close>

definition strip :: "page \<Rightarrow> page" where
  "strip s =
     s\<lparr>inputs := map (\<lambda>f. f\<lparr>errorClass := False\<rparr>) (inputs s), fieldErrors := (\<lambda>p. []),
       validated := []\<rparr>"

text \<open>
  A page as it is when \<^verbatim>\<open>FormHandler\<close> has been constructed: nothing displayed, nothing
  pending, no timer set; and a control of type \<open>text\<close>.
\<close>

definition loaded :: "field list \<Rightarrow> button option \<Rightarrow> page" where
  "loaded fs b =
     \<lparr>inputs = fs, fieldErrors = (\<lambda>p. []), submitBtn = b, action = js ''/contact'',
      fetchCalls = [], pending = [], toasts = [], clock = 0, timers = [], nextHandle = 0,
      debounceTimeout = (\<lambda>i. None), fired = [], validated = []\<rparr>"

definition text_field :: "string \<Rightarrow> string \<Rightarrow> string \<Rightarrow> bool \<Rightarrow> nat \<Rightarrow> field" where
  "text_field n v d r p =
     \<lparr>fname = js n, fvalue = js v, fdefault = js d, ftype = ''text'', required = r,
      parent = p, errorClass = False\<rparr>"

subsection \<open>Inline errors and validation results\<close>

text \<open>
  The error element that \<^verbatim>\<open>showFieldValidation\<close> finds for control \<open>i\<close>, and the one that
  the verdict on the current value of a control calls for.  A control is in sync when the
  two agree.
\<close>

definition displayed :: "page \<Rightarrow> nat \<Rightarrow> jsstring option" where
  "displayed s i =
     (case fieldErrors s (parent (inputs s ! i)) of [] \<Rightarrow> None | m # rest \<Rightarrow> Some m)"

definition expected :: "field \<Rightarrow> jsstring option" where
  "expected f = (if fst (validate f) then None else Some (snd (validate f)))"

definition in_sync :: "page \<Rightarrow> nat \<Rightarrow> bool" where
  "in_sync s i \<longleftrightarrow> displayed s i = expected (inputs s ! i)"

text \<open>
  No two controls have the same parent element, and no parent holds more than one error
  element.
\<close>

definition own_containers :: "page \<Rightarrow> bool" where
  "own_containers s \<longleftrightarrow>
     distinct (map parent (inputs s)) \<and>
     (\<forall>p\<in>set (map parent (inputs s)). length (fieldErrors s p) \<le> 1)"

definition watched :: "nat \<Rightarrow> page \<Rightarrow> bool" where
  "watched i s \<longleftrightarrow> own_containers s \<and> i < length (inputs s)"

text \<open>
  The events that change the value of control \<open>i\<close> without validating it: an edit of the
  control, and the \<^verbatim>\<open>form.reset()\<close> that follows a successful response.
\<close>

definition disturbs :: "nat \<Rightarrow> event \<Rightarrow> bool" where
  "disturbs i e =
     (case e of Input j v \<Rightarrow> j = i | Settle k r \<Rightarrow> r = Resolved True | _ \<Rightarrow> False)"

subsection \<open>The timer table\<close>

text \<open>
  Handles are distinct and below the next handle; the variable \<^verbatim>\<open>timeout\<close> of a debounced
  listener holds a handle that only a timer of that listener can have, and every pending
  timer of the listener is the one the variable names.  No pending timer is overdue
  between two events.
\<close>

definition table_ok :: "timer list \<Rightarrow> nat \<Rightarrow> (nat \<Rightarrow> nat option) \<Rightarrow> bool" where
  "table_ok ts n dt \<longleftrightarrow>
     distinct (map handle ts) \<and>
     (\<forall>t\<in>set ts. handle t < n) \<and>
     (\<forall>i h. dt i = Some h \<longrightarrow> h < n \<and> (\<forall>t\<in>set ts. handle t = h \<longrightarrow> act t = Later i)) \<and>
     (\<forall>t\<in>set ts. \<forall>i. act t = Later i \<longrightarrow> dt i = Some (handle t))"

definition handles_ok :: "page \<Rightarrow> bool" where
  "handles_ok s \<longleftrightarrow> table_ok (timers s) (nextHandle s) (debounceTimeout s)"

definition no_overdue :: "page \<Rightarrow> bool" where
  "no_overdue s \<longleftrightarrow> (\<forall>t\<in>set (timers s). clock s < due t)"

definition overdue :: "page \<Rightarrow> timer set" where
  "overdue s = {u \<in> set (timers s). due u \<le> clock s}"

text \<open>
  The pending timers whose callback has a given property, and the callbacks with that
  property that have run.  Running \<open>ToastHide\<close> sets a timer for \<open>ToastRemove\<close>; a property is
  closed under that when it holds of the first whenever it holds of the second.
\<close>

definition mine :: "(action \<Rightarrow> bool) \<Rightarrow> page \<Rightarrow> timer list" where
  "mine about s = filter (\<lambda>t. about (act t)) (timers s)"

definition logged :: "(action \<Rightarrow> bool) \<Rightarrow> page \<Rightarrow> (nat \<times> action) list" where
  "logged about s = filter (\<lambda>(c, a). about a) (fired s)"

definition spawn_closed :: "(action \<Rightarrow> bool) \<Rightarrow> bool" where
  "spawn_closed about \<longleftrightarrow> (\<forall>k. about (ToastRemove k) \<longrightarrow> about (ToastHide k))"

subsection \<open>Bursts of edits\<close>

text \<open>
  The debounced callback of control \<open>i\<close>.  A burst of edits of control \<open>i\<close>: each edit comes
  with the number of milliseconds that pass before it.
\<close>

definition is_later :: "nat \<Rightarrow> action \<Rightarrow> bool" where
  "is_later i a \<longleftrightarrow> a = Later i"

definition keystrokes :: "nat \<Rightarrow> (nat \<times> jsstring) list \<Rightarrow> event list" where
  "keystrokes i gvs = concat (map (\<lambda>(g, v). replicate g Tick @ [Input i v]) gvs)"

definition armed :: "nat \<Rightarrow> nat \<Rightarrow> page \<Rightarrow> bool" where
  "armed i D s \<longleftrightarrow>
     handles_ok s \<and> no_overdue s \<and> i < length (inputs s) \<and>
     (\<exists>t. mine (is_later i) s = [t] \<and> due t = D)"

definition unarmed :: "nat \<Rightarrow> page \<Rightarrow> bool" where
  "unarmed i s \<longleftrightarrow> handles_ok s \<and> i < length (inputs s) \<and> mine (is_later i) s = []"

text \<open>
  The calls of \<^verbatim>\<open>validateField\<close> on control \<open>i\<close>, with their times.  Between \<open>s\<close> and \<open>s'\<close> the
  debounced callback of control \<open>i\<close> and the validator of control \<open>i\<close> keep pace when they
  have run at the same moments, and at no others.  Typing is editing and waiting.
\<close>

definition calls :: "nat \<Rightarrow> page \<Rightarrow> (nat \<times> nat) list" where
  "calls i s = filter (\<lambda>(c, j). j = i) (validated s)"

definition pace :: "nat \<Rightarrow> page \<Rightarrow> page \<Rightarrow> bool" where
  "pace i s s' \<longleftrightarrow>
     (\<exists>cs. logged (is_later i) s' = logged (is_later i) s @ map (\<lambda>c. (c, Later i)) cs \<and>
           calls i s' = calls i s @ map (\<lambda>c. (c, i)) cs)"

definition typing :: "event \<Rightarrow> bool" where
  "typing e = (case e of Input j v \<Rightarrow> True | Tick \<Rightarrow> True | _ \<Rightarrow> False)"

subsection \<open>The life of a toast\<close>

text \<open>
  The callbacks that refer to toast \<open>k\<close>; the timers of toast \<open>k\<close> that are pending \<open>d\<close>
  milliseconds after its creation at time \<open>T\<close>; and the state of the toast and its timers
  at the current time.
\<close>

definition refs :: "nat \<Rightarrow> action \<Rightarrow> bool" where
  "refs k a \<longleftrightarrow> a = ToastShow k \<or> a = ToastHide k \<or> a = ToastRemove k"

definition plan :: "nat \<Rightarrow> nat \<Rightarrow> nat \<Rightarrow> (nat \<times> action) list" where
  "plan T k d =
     (if d < 100 then [(T + 100, ToastShow k), (T + 3000, ToastHide k)]
      else if d < 3000 then [(T + 3000, ToastHide k)]
      else if d < 3300 then [(T + 3300, ToastRemove k)]
      else [])"

definition stage :: "nat \<Rightarrow> nat \<Rightarrow> jsstring \<Rightarrow> jsstring \<Rightarrow> page \<Rightarrow> bool" where
  "stage T k x c s \<longleftrightarrow>
     k < length (toasts s) \<and> T \<le> clock s \<and>
     toasts s ! k =
       \<lparr>ttext = x, tclass = c, shown = (100 \<le> clock s - T \<and> clock s - T < 3000),
        attached = (clock s - T < 3300)\<rparr> \<and>
     map (\<lambda>t. (due t, act t)) (mine (refs k) s) = plan T k (clock s - T)"

definition toast_refs_ok :: "page \<Rightarrow> bool" where
  "toast_refs_ok s \<longleftrightarrow> (\<forall>t\<in>set (timers s). \<forall>k. refs k (act t) \<longrightarrow> k < length (toasts s))"

section \<open>Properties of the matcher\<close>

lemma accepts_empty_lang: "accepts_empty r \<longleftrightarrow> [] \<in> lang r"
  by (induction r) (auto intro: reps_none)

lemma reps_cons_split:
  assumes "x \<in> reps L" and "x = c # w"
  shows "\<exists>u v. w = u @ v \<and> c # u \<in> L \<and> v \<in> reps L"
  using assms
proof (induction arbitrary: w rule: reps.induct)
  case reps_none
  then show ?case by simp
next
  case (reps_more u v)
  show ?case
  proof (cases u)
    case Nil
    with reps_more show ?thesis by simp
  next
    case (Cons a u')
    with reps_more.prems have "a = c" and "w = u' @ v" by simp_all
    with Cons reps_more.hyps show ?thesis by blast
  qed
qed

lemma reps_cons: "c # w \<in> reps L \<longleftrightarrow> (\<exists>u v. w = u @ v \<and> c # u \<in> L \<and> v \<in> reps L)"
proof
  assume "c # w \<in> reps L"
  then show "\<exists>u v. w = u @ v \<and> c # u \<in> L \<and> v \<in> reps L"
    using reps_cons_split by blast
next
  assume "\<exists>u v. w = u @ v \<and> c # u \<in> L \<and> v \<in> reps L"
  then obtain u v where "w = u @ v" "c # u \<in> L" "v \<in> reps L" by blast
  then show "c # w \<in> reps L"
    using reps_more [of "c # u" L v] by simp
qed

lemma after_lang: "w \<in> lang (after c r) \<longleftrightarrow> c # w \<in> lang r"
proof (induction r arbitrary: w)
  case (Then r s)
  show ?case
  proof
    assume "w \<in> lang (after c (Then r s))"
    then consider (l) u v where "w = u @ v" "u \<in> lang (after c r)" "v \<in> lang s"
      | (r) "accepts_empty r" "w \<in> lang (after c s)"
      by (auto split: if_splits)
    then show "c # w \<in> lang (Then r s)"
    proof cases
      case l
      then have "c # u \<in> lang r" using Then.IH(1) by simp
      with l show ?thesis by (simp) (metis append_Cons)
    next
      case r
      then have "[] \<in> lang r" "c # w \<in> lang s"
        using Then.IH(2) accepts_empty_lang by simp_all
      then show ?thesis by simp (metis append_Nil)
    qed
  next
    assume "c # w \<in> lang (Then r s)"
    then obtain u v where uv: "c # w = u @ v" "u \<in> lang r" "v \<in> lang s" by auto
    show "w \<in> lang (after c (Then r s))"
    proof (cases u)
      case Nil
      with uv have "accepts_empty r" "w \<in> lang (after c s)"
        using Then.IH(2) accepts_empty_lang by simp_all
      then show ?thesis by simp
    next
      case (Cons a u')
      with uv have "u' \<in> lang (after c r)" "w = u' @ v"
        using Then.IH(1) by simp_all
      with uv show ?thesis by auto
    qed
  qed
next
  case (Many r)
  then show ?case by (auto simp: reps_cons)
qed auto

lemma test_lang: "test r w \<longleftrightarrow> w \<in> lang r"
  by (induction w arbitrary: r) (simp_all add: accepts_empty_lang after_lang)

lemma ex1: "test emailRegex (js ''a@b.co'')"
  by (simp add: js_def emailRegex_def OneOrMore_def not_ws_at_def is_ws_def)

lemma ex2: "\<not> test emailRegex (js ''a@b'')"
  by (simp add: js_def emailRegex_def OneOrMore_def not_ws_at_def is_ws_def)

lemma ex3: "\<not> test emailRegex (js ''a b@c.com'')"
  by (simp add: js_def emailRegex_def OneOrMore_def not_ws_at_def is_ws_def)

lemma ex4: "test phoneRegex (js ''+1 (555) 123-4567'')"
  by (simp add: js_def phoneRegex_def OneOrMore_def phone_class_def is_digit_def is_ws_def)

lemma ex5: "\<not> test phoneRegex (js ''call me'')"
  by (simp add: js_def phoneRegex_def OneOrMore_def phone_class_def is_digit_def is_ws_def)

lemma reps_class: "reps {[c] | c. p c} = {w. \<forall>c\<in>set w. p c}"
proof (rule set_eqI)
  fix w
  show "w \<in> reps {[c] | c. p c} \<longleftrightarrow> w \<in> {w. \<forall>c\<in>set w. p c}"
  proof
    assume "w \<in> reps {[c] | c. p c}"
    then show "w \<in> {w. \<forall>c\<in>set w. p c}"
      by (induction rule: reps.induct) auto
  next
    assume "w \<in> {w. \<forall>c\<in>set w. p c}"
    then show "w \<in> reps {[c] | c. p c}"
    proof (induction w)
      case Nil
      show ?case by (rule reps_none)
    next
      case (Cons a w)
      then have "[a] \<in> {[c] | c. p c}" "w \<in> reps {[c] | c. p c}" by simp_all
      then have "[a] @ w \<in> reps {[c] | c. p c}" by (rule reps_more)
      then show ?case by simp
    qed
  qed
qed

lemma class_then: "w \<in> lang (Then (Class p) r) \<longleftrightarrow> (\<exists>c v. w = c # v \<and> p c \<and> v \<in> lang r)"
proof
  assume "w \<in> lang (Then (Class p) r)"
  then show "\<exists>c v. w = c # v \<and> p c \<and> v \<in> lang r" by auto
next
  assume "\<exists>c v. w = c # v \<and> p c \<and> v \<in> lang r"
  then obtain c v where w: "w = c # v" and c: "p c" and v: "v \<in> lang r" by blast
  from c have "[c] \<in> lang (Class p)" by simp
  with v have "[c] @ v \<in> lang (Then (Class p) r)"
    unfolding lang.simps(5) mem_Collect_eq by blast
  with w show "w \<in> lang (Then (Class p) r)" by simp
qed

lemma lang_run: "w \<in> lang (OneOrMore (Class p)) \<longleftrightarrow> w \<noteq> [] \<and> (\<forall>c\<in>set w. p c)"
  unfolding OneOrMore_def class_then by (cases w) (auto simp: reps_class)

lemma test_run: "test (OneOrMore (Class p)) w \<longleftrightarrow> w \<noteq> [] \<and> (\<forall>c\<in>set w. p c)"
  by (simp only: test_lang lang_run)

lemma trim_empty: "trim v = [] \<longleftrightarrow> (\<forall>c\<in>set v. is_ws c)"
proof -
  have "(\<forall>c\<in>set (dropWhile is_ws v). is_ws c) \<longleftrightarrow> dropWhile is_ws v = []"
  proof
    assume all: "\<forall>c\<in>set (dropWhile is_ws v). is_ws c"
    show "dropWhile is_ws v = []"
    proof (rule ccontr)
      assume ne: "dropWhile is_ws v \<noteq> []"
      then have "\<not> is_ws (hd (dropWhile is_ws v))" by (rule hd_dropWhile)
      moreover have "hd (dropWhile is_ws v) \<in> set (dropWhile is_ws v)" using ne by simp
      ultimately show False using all by blast
    qed
  next
    assume "dropWhile is_ws v = []"
    then show "\<forall>c\<in>set (dropWhile is_ws v). is_ws c" by (simp only: list.set ball_empty)
  qed
  then show ?thesis by (simp add: trim_def dropWhile_eq_Nil_conv)
qed

lemma trim_decomp: "\<exists>a b. v = a @ trim v @ b \<and> (\<forall>c\<in>set a. is_ws c) \<and> (\<forall>c\<in>set b. is_ws c)"
proof -
  let ?d = "dropWhile is_ws v"
  have 1: "v = takeWhile is_ws v @ ?d" by simp
  have "rev (rev ?d) = rev (takeWhile is_ws (rev ?d) @ dropWhile is_ws (rev ?d))"
    by (simp only: takeWhile_dropWhile_id)
  then have 2: "?d = trim v @ rev (takeWhile is_ws (rev ?d))"
    by (simp only: rev_rev_ident rev_append trim_def)
  have "v = takeWhile is_ws v @ trim v @ rev (takeWhile is_ws (rev ?d))"
    using 1 2 by metis
  moreover have "\<forall>c\<in>set (takeWhile is_ws v). is_ws c"
    by (auto dest: set_takeWhileD)
  moreover have "\<forall>c\<in>set (rev (takeWhile is_ws (rev ?d))). is_ws c"
    by (auto dest: set_takeWhileD)
  ultimately show ?thesis by blast
qed

lemma trim_all: "(\<And>c. is_ws c \<Longrightarrow> p c) \<Longrightarrow> (\<forall>c\<in>set (trim v). p c) \<longleftrightarrow> (\<forall>c\<in>set v. p c)"
proof -
  assume ws: "\<And>c. is_ws c \<Longrightarrow> p c"
  obtain a b where v: "v = a @ trim v @ b" and a: "\<forall>c\<in>set a. is_ws c" and b: "\<forall>c\<in>set b. is_ws c"
    using trim_decomp by blast
  have "set v = set a \<union> set (trim v) \<union> set b"
    by (subst v) auto
  with a b ws show ?thesis by auto
qed

lemma lang_email_part: "w \<in> lang (OneOrMore (Class not_ws_at)) \<longleftrightarrow> email_part w"
  by (simp only: lang_run email_part_def not_ws_at_def)

lemma lang_then: "w \<in> lang (Then r s) \<longleftrightarrow> (\<exists>u v. w = u @ v \<and> u \<in> lang r \<and> v \<in> lang s)"
  by auto

lemma lang_char: "w \<in> lang (Class (\<lambda>c. c = k)) \<longleftrightarrow> w = [k]"
  by auto

lemma test_emailRegex: "test emailRegex w \<longleftrightarrow> email_shape w"
proof -
  have "test emailRegex w \<longleftrightarrow>
    (\<exists>l v1. w = l @ v1 \<and> email_part l \<and> (\<exists>a v2. v1 = a @ v2 \<and> a = [64] \<and>
       (\<exists>d v3. v2 = d @ v3 \<and> email_part d \<and> (\<exists>b t. v3 = b @ t \<and> b = [46] \<and> email_part t))))"
    unfolding test_lang emailRegex_def
    by (simp only: lang_then lang_email_part lang_char)
  also have "\<dots> \<longleftrightarrow> email_shape w"
    unfolding email_shape_def by (simp add: js_def) blast
  finally show ?thesis .
qed

lemma test_phoneRegex: "test phoneRegex w \<longleftrightarrow> w \<noteq> [] \<and> (\<forall>c\<in>set w. phone_class c)"
  unfolding phoneRegex_def by (rule test_run)

lemma tel_shape_class: "tel_shape v \<longleftrightarrow> (\<forall>c\<in>set v. phone_class c)"
  unfolding tel_shape_def phone_class_def by (simp add: js_def)

lemma tel_shape_trim: "tel_shape (trim v) \<longleftrightarrow> tel_shape v"
  unfolding tel_shape_class by (rule trim_all) (simp add: phone_class_def)

section \<open>Properties of the validator\<close>

text \<open>
  C3.  A required field whose value is empty or consists of white space only is invalid,
  and the verdict carries the required-field message.
\<close>

theorem validate_required_blank:
  "required f \<Longrightarrow> \<forall>c\<in>set (fvalue f). is_ws c \<Longrightarrow> validate f = (False, msg_required)"
  by (simp add: validate_def trim_empty)

theorem validate_required_blank_witness:
  "required \<lparr>fname = js ''name'', fvalue = js ''  '', fdefault = [], ftype = ''text'',
      required = True, parent = 0, errorClass = False\<rparr> \<and>
   list_all is_ws (fvalue \<lparr>fname = js ''name'', fvalue = js ''  '', fdefault = [],
      ftype = ''text'', required = True, parent = 0, errorClass = False\<rparr>) \<and>
   validate \<lparr>fname = js ''name'', fvalue = js ''  '', fdefault = [], ftype = ''text'',
      required = True, parent = 0, errorClass = False\<rparr> = (False, msg_required)"
  using validate_required_blank [of "\<lparr>fname = js ''name'', fvalue = js ''  '', fdefault = [],
      ftype = ''text'', required = True, parent = 0, errorClass = False\<rparr>"]
  by (simp add: js_def is_ws_def)

text \<open>
  C10.  A field that is not required and whose value consists of white space only (or is
  empty) is valid whatever its type is, \<open>email\<close> and \<open>tel\<close> included: the format checks
  run on a non-empty trimmed value only.
\<close>

theorem validate_optional_blank:
  "\<not> required f \<Longrightarrow> \<forall>c\<in>set (fvalue f). is_ws c \<Longrightarrow> validate f = (True, [])"
  by (simp add: validate_def trim_empty)

theorem validate_optional_blank_witness:
  "\<not> required \<lparr>fname = js ''mail'', fvalue = js ''   '', fdefault = [], ftype = ''email'',
      required = False, parent = 0, errorClass = False\<rparr> \<and>
   list_all is_ws (fvalue \<lparr>fname = js ''mail'', fvalue = js ''   '', fdefault = [],
      ftype = ''email'', required = False, parent = 0, errorClass = False\<rparr>) \<and>
   validate \<lparr>fname = js ''mail'', fvalue = js ''   '', fdefault = [], ftype = ''email'',
      required = False, parent = 0, errorClass = False\<rparr> = (True, [])"
  using validate_optional_blank [of "\<lparr>fname = js ''mail'', fvalue = js ''   '', fdefault = [],
      ftype = ''email'', required = False, parent = 0, errorClass = False\<rparr>"]
  by (simp add: js_def is_ws_def)

lemma validate_tel_iff:
  "trim (fvalue f) \<noteq> [] \<Longrightarrow> ftype f = ''tel'' \<Longrightarrow> fst (validate f) \<longleftrightarrow> tel_shape (fvalue f)"
  by (simp add: validate_def Let_def test_phoneRegex tel_shape_class [symmetric] tel_shape_trim)

lemma validate_email_iff:
  "trim (fvalue f) \<noteq> [] \<Longrightarrow> ftype f = ''email'' \<Longrightarrow>
     fst (validate f) \<longleftrightarrow> email_shape (trim (fvalue f))"
  by (simp add: validate_def Let_def test_emailRegex)

lemma trim_ex1: "trim (js ''a@b.co'') = js ''a@b.co''"
  by (simp add: js_def trim_def is_ws_def)
lemma trim_ex2: "trim (js ''a@b'') = js ''a@b''"
  by (simp add: js_def trim_def is_ws_def)
lemma trim_ex3: "trim (js ''a b@c.com'') = js ''a b@c.com''"
  by (simp add: js_def trim_def is_ws_def)
lemma trim_ex4: "trim (js ''+1 (555) 123-4567'') = js ''+1 (555) 123-4567''"
  by (simp add: js_def trim_def is_ws_def)
lemma trim_ex5: "trim (js ''call me'') = js ''call me''"
  by (simp add: js_def trim_def is_ws_def)
lemma js_nonempty: "js (c # s) \<noteq> []"
  by (simp add: js_def)

text \<open>
  C2.  For a field of type \<open>email\<close> whose trimmed value is not empty the verdict is valid
  exactly when the trimmed value has the shape \<open>local@domain.tld\<close>; \<open>a@b.co\<close> is valid,
  \<open>a@b\<close> and \<open>a b@c.com\<close> are invalid.
\<close>

theorem validate_email:
  "ftype f = ''email'' \<Longrightarrow>
     (trim (fvalue f) \<noteq> [] \<longrightarrow> (fst (validate f) \<longleftrightarrow> email_shape (trim (fvalue f)))) \<and>
     (fvalue f = js ''a@b.co'' \<longrightarrow> fst (validate f)) \<and>
     (fvalue f = js ''a@b'' \<longrightarrow> \<not> fst (validate f)) \<and>
     (fvalue f = js ''a b@c.com'' \<longrightarrow> \<not> fst (validate f))"
proof (intro conjI impI)
  assume "ftype f = ''email''" "trim (fvalue f) \<noteq> []"
  then show "fst (validate f) \<longleftrightarrow> email_shape (trim (fvalue f))" by (simp add: validate_email_iff)
next
  assume "ftype f = ''email''" "fvalue f = js ''a@b.co''"
  then show "fst (validate f)"
    by (simp add: validate_def trim_ex1 js_nonempty ex1)
next
  assume "ftype f = ''email''" "fvalue f = js ''a@b''"
  then show "\<not> fst (validate f)"
    by (simp add: validate_def trim_ex2 js_nonempty ex2)
next
  assume "ftype f = ''email''" "fvalue f = js ''a b@c.com''"
  then show "\<not> fst (validate f)"
    by (simp add: validate_def trim_ex3 js_nonempty ex3)
qed

theorem validate_email_witness:
  "ftype \<lparr>fname = js ''mail'', fvalue = js ''a@b.co'', fdefault = [], ftype = ''email'',
      required = True, parent = 0, errorClass = False\<rparr> = ''email'' \<and>
   trim (js ''a@b.co'') \<noteq> [] \<and>
   fst (validate \<lparr>fname = js ''mail'', fvalue = js ''a@b.co'', fdefault = [], ftype = ''email'',
      required = True, parent = 0, errorClass = False\<rparr>) \<and>
   email_shape (trim (js ''a@b.co''))"
proof -
  let ?f = "\<lparr>fname = js ''mail'', fvalue = js ''a@b.co'', fdefault = [], ftype = ''email'',
      required = True, parent = 0, errorClass = False\<rparr>"
  have ne: "trim (js ''a@b.co'') \<noteq> []" by (simp add: trim_ex1 js_nonempty)
  have "fst (validate ?f)" using validate_email [of ?f] by simp
  moreover have "email_shape (trim (js ''a@b.co''))"
    using validate_email [of ?f] ne \<open>fst (validate ?f)\<close> by simp
  ultimately show ?thesis using ne by simp
qed

text \<open>
  C4.  For a field of type \<open>tel\<close> whose trimmed value is not empty the verdict is valid
  exactly when every character of the value is a digit, white space, or one of \<open>-\<close>,
  \<open>+\<close>, \<open>(\<close>, \<open>)\<close>; \<open>+1 (555) 123-4567\<close> is valid and \<open>call me\<close> is invalid.
\<close>

theorem validate_tel:
  "ftype f = ''tel'' \<Longrightarrow>
     (trim (fvalue f) \<noteq> [] \<longrightarrow> (fst (validate f) \<longleftrightarrow> tel_shape (fvalue f))) \<and>
     (fvalue f = js ''+1 (555) 123-4567'' \<longrightarrow> fst (validate f)) \<and>
     (fvalue f = js ''call me'' \<longrightarrow> \<not> fst (validate f))"
proof (intro conjI impI)
  assume "ftype f = ''tel''" "trim (fvalue f) \<noteq> []"
  then show "fst (validate f) \<longleftrightarrow> tel_shape (fvalue f)" by (simp add: validate_tel_iff)
next
  assume "ftype f = ''tel''" "fvalue f = js ''+1 (555) 123-4567''"
  then show "fst (validate f)"
    by (simp add: validate_def trim_ex4 js_nonempty ex4)
next
  assume "ftype f = ''tel''" "fvalue f = js ''call me''"
  then show "\<not> fst (validate f)"
    by (simp add: validate_def trim_ex5 js_nonempty ex5)
qed

theorem validate_tel_witness:
  "ftype \<lparr>fname = js ''phone'', fvalue = js ''+1 (555) 123-4567'', fdefault = [], ftype = ''tel'',
      required = False, parent = 0, errorClass = False\<rparr> = ''tel'' \<and>
   trim (js ''+1 (555) 123-4567'') \<noteq> [] \<and>
   fst (validate \<lparr>fname = js ''phone'', fvalue = js ''+1 (555) 123-4567'', fdefault = [],
      ftype = ''tel'', required = False, parent = 0, errorClass = False\<rparr>) \<and>
   tel_shape (js ''+1 (555) 123-4567'')"
proof -
  let ?f = "\<lparr>fname = js ''phone'', fvalue = js ''+1 (555) 123-4567'', fdefault = [],
      ftype = ''tel'', required = False, parent = 0, errorClass = False\<rparr>"
  have ne: "trim (js ''+1 (555) 123-4567'') \<noteq> []" by (simp add: trim_ex4 js_nonempty)
  have "fst (validate ?f)" using validate_tel [of ?f] by simp
  moreover have "tel_shape (js ''+1 (555) 123-4567'')"
    using validate_tel [of ?f] ne \<open>fst (validate ?f)\<close> by simp
  ultimately show ?thesis using ne by simp
qed

section \<open>Properties of the form controller\<close>

lemma strip_sel:
  "submitBtn (strip s) = submitBtn s" "action (strip s) = action s"
  "fetchCalls (strip s) = fetchCalls s" "pending (strip s) = pending s"
  "toasts (strip s) = toasts s" "clock (strip s) = clock s" "timers (strip s) = timers s"
  "nextHandle (strip s) = nextHandle s" "debounceTimeout (strip s) = debounceTimeout s"
  "fired (strip s) = fired s"
  "inputs (strip s) = map (\<lambda>f. f\<lparr>errorClass := False\<rparr>) (inputs s)"
  by (simp_all add: strip_def)

lemma strip_eqD:
  assumes "strip s' = strip s"
  shows "submitBtn s' = submitBtn s" "action s' = action s"
    "fetchCalls s' = fetchCalls s" "pending s' = pending s"
    "toasts s' = toasts s" "clock s' = clock s" "timers s' = timers s"
    "nextHandle s' = nextHandle s" "debounceTimeout s' = debounceTimeout s"
    "fired s' = fired s"
    "map (\<lambda>f. f\<lparr>errorClass := False\<rparr>) (inputs s') = map (\<lambda>f. f\<lparr>errorClass := False\<rparr>) (inputs s)"
  using arg_cong [OF assms, of submitBtn] arg_cong [OF assms, of action]
    arg_cong [OF assms, of fetchCalls] arg_cong [OF assms, of pending]
    arg_cong [OF assms, of toasts] arg_cong [OF assms, of clock]
    arg_cong [OF assms, of timers] arg_cong [OF assms, of nextHandle]
    arg_cong [OF assms, of debounceTimeout] arg_cong [OF assms, of fired]
    arg_cong [OF assms, of inputs]
  by (simp_all only: strip_sel)

lemma validate_errorClass: "validate (f\<lparr>errorClass := b\<rparr>) = validate f"
  unfolding validate_def by (simp cong: if_cong)

lemma strip_map:
  assumes "strip s' = strip s" and "\<And>f. h (f\<lparr>errorClass := False\<rparr>) = h f"
  shows "map h (inputs s') = map h (inputs s)"
proof -
  let ?c = "\<lambda>f::field. f\<lparr>errorClass := False\<rparr>"
  have "map h (map ?c (inputs s')) = map h (map ?c (inputs s))"
    using strip_eqD(11) [OF assms(1)] by (rule arg_cong)
  then show ?thesis by (simp add: comp_def assms(2))
qed

lemma strip_inputs:
  assumes "strip s' = strip s"
  shows "length (inputs s') = length (inputs s)"
    and "map fvalue (inputs s') = map fvalue (inputs s)"
    and "map fdefault (inputs s') = map fdefault (inputs s)"
    and "map parent (inputs s') = map parent (inputs s)"
    and "map validate (inputs s') = map validate (inputs s)"
proof -
  show "map fvalue (inputs s') = map fvalue (inputs s)" using assms by (rule strip_map) simp
  then show "length (inputs s') = length (inputs s)" by (rule map_eq_imp_length_eq)
  show "map fdefault (inputs s') = map fdefault (inputs s)" using assms by (rule strip_map) simp
  show "map parent (inputs s') = map parent (inputs s)" using assms by (rule strip_map) simp
  show "map validate (inputs s') = map validate (inputs s)"
    using assms by (rule strip_map) (rule validate_errorClass)
qed

lemma map_at_length [simp]: "length (map_at i g xs) = length xs"
  by (simp add: map_at_def)

lemma map_map_at: "(\<And>x. h (g x) = h x) \<Longrightarrow> map h (map_at i g xs) = map h xs"
  by (simp add: map_at_def map_update list_update_same_conv)

lemma strip_showFieldValidation: "strip (showFieldValidation i ok m s) = strip s"
  by (simp add: showFieldValidation_def strip_def Let_def map_map_at split: list.split)

lemma strip_validated: "strip (s\<lparr>validated := x\<rparr>) = strip s"
  by (simp add: strip_def)

lemma strip_validateField: "strip (snd (validateField i s)) = strip s"
  by (simp add: validateField_def strip_showFieldValidation strip_validated split: prod.split)

lemma fst_validateField: "fst (validateField i s) = fst (validate (inputs s ! i))"
  by (simp add: validateField_def split: prod.split)

lemma validateInputs_strip: "strip (snd (validateInputs ks b s)) = strip s"
proof (induction ks arbitrary: b s)
  case Nil
  show ?case by simp
next
  case (Cons i ks)
  obtain ok s1 where v: "validateField i s = (ok, s1)" by (cases "validateField i s")
  then have "strip s1 = strip s" using strip_validateField [of i s] by simp
  with Cons [of "if \<not> ok then False else b" s1] v show ?case by simp
qed

lemma strip_validate_nth:
  assumes "strip s' = strip s" and "j < length (inputs s)"
  shows "validate (inputs s' ! j) = validate (inputs s ! j)"
proof -
  have m: "map validate (inputs s') = map validate (inputs s)" using assms(1) by (rule strip_inputs)
  have l: "length (inputs s') = length (inputs s)" using assms(1) by (rule strip_inputs)
  have "map validate (inputs s') ! j = map validate (inputs s) ! j" using m by simp
  then show ?thesis using assms(2) l by simp
qed

lemma validateInputs_fst:
  "\<forall>i\<in>set ks. i < length (inputs s) \<Longrightarrow>
   fst (validateInputs ks b s) \<longleftrightarrow> b \<and> (\<forall>i\<in>set ks. fst (validate (inputs s ! i)))"
proof (induction ks arbitrary: b s)
  case Nil
  show ?case by simp
next
  case (Cons i ks)
  obtain ok s1 where v: "validateField i s = (ok, s1)" by (cases "validateField i s")
  then have s1: "strip s1 = strip s" using strip_validateField [of i s] by simp
  have ok: "ok = fst (validate (inputs s ! i))" using v fst_validateField [of i s] by simp
  have l: "length (inputs s1) = length (inputs s)" using s1 by (rule strip_inputs)
  have same: "\<forall>j\<in>set ks. validate (inputs s1 ! j) = validate (inputs s ! j)"
    using Cons.prems strip_validate_nth [OF s1] by simp
  have "fst (validateInputs ks (if \<not> ok then False else b) s1) \<longleftrightarrow>
        (if \<not> ok then False else b) \<and> (\<forall>j\<in>set ks. fst (validate (inputs s1 ! j)))"
    using Cons.prems l by (intro Cons.IH) simp
  then show ?case using v ok same by auto
qed

lemma validateForm_fst: "fst (validateForm s) \<longleftrightarrow> (\<forall>f\<in>set (inputs s). fst (validate f))"
proof -
  have "fst (validateForm s) \<longleftrightarrow> (\<forall>i\<in>set [0..<length (inputs s)]. fst (validate (inputs s ! i)))"
    unfolding validateForm_def by (subst validateInputs_fst) simp_all
  then show ?thesis by (auto simp: all_set_conv_all_nth)
qed

lemma validateForm_strip: "strip (snd (validateForm s)) = strip s"
  unfolding validateForm_def by (rule validateInputs_strip)

lemma strip_endpoint: "strip s' = strip s \<Longrightarrow> endpoint s' = endpoint s"
  using strip_eqD(2) [of s' s] by (simp add: endpoint_def)

lemma handleSubmit_fetchCalls:
  assumes "submitBtn s = Some b"
  shows "fetchCalls (handleSubmit s) =
     (if \<forall>f\<in>set (inputs s). fst (validate f)
      then fetchCalls s @ [(endpoint s, FormData (inputs (snd (validateForm s))))]
      else fetchCalls s)"
proof -
  obtain ok s1 where v: "validateForm s = (ok, s1)" by (cases "validateForm s")
  then have s1: "strip s1 = strip s" using validateForm_strip [of s] by simp
  have ok: "ok \<longleftrightarrow> (\<forall>f\<in>set (inputs s). fst (validate f))" using v validateForm_fst [of s] by simp
  have b: "submitBtn s1 = Some b" using strip_eqD(1) [OF s1] assms by simp
  show ?thesis
    using v ok b strip_endpoint [OF s1] strip_eqD(3) [OF s1]
    by (simp add: handleSubmit_def submitForm_def)
qed

lemma handleSubmit_no_button:
  assumes "submitBtn s = None"
  shows "fetchCalls (handleSubmit s) = fetchCalls s" and "pending (handleSubmit s) = pending s"
    and "toasts (handleSubmit s) = toasts s"
proof -
  obtain ok s1 where v: "validateForm s = (ok, s1)" by (cases "validateForm s")
  then have s1: "strip s1 = strip s" using validateForm_strip [of s] by simp
  have b: "submitBtn s1 = None" using strip_eqD(1) [OF s1] assms by simp
  show "fetchCalls (handleSubmit s) = fetchCalls s"
    using v b strip_eqD(3) [OF s1]
    by (simp add: handleSubmit_def submitForm_def)
  show "pending (handleSubmit s) = pending s"
    using v b strip_eqD(4) [OF s1]
    by (simp add: handleSubmit_def submitForm_def)
  show "toasts (handleSubmit s) = toasts s"
    using v b strip_eqD(5) [OF s1]
    by (simp add: handleSubmit_def submitForm_def)
qed

lemma clearTimeout_sel:
  "inputs (clearTimeout h s) = inputs s" "fieldErrors (clearTimeout h s) = fieldErrors s"
  "submitBtn (clearTimeout h s) = submitBtn s" "action (clearTimeout h s) = action s"
  "fetchCalls (clearTimeout h s) = fetchCalls s" "pending (clearTimeout h s) = pending s"
  "toasts (clearTimeout h s) = toasts s" "clock (clearTimeout h s) = clock s"
  "nextHandle (clearTimeout h s) = nextHandle s"
  "debounceTimeout (clearTimeout h s) = debounceTimeout s" "fired (clearTimeout h s) = fired s"
  by (simp_all add: clearTimeout_def split: option.split)

lemma setTimeout_sel:
  "inputs (snd (setTimeout a ms s)) = inputs s"
  "fieldErrors (snd (setTimeout a ms s)) = fieldErrors s"
  "submitBtn (snd (setTimeout a ms s)) = submitBtn s" "action (snd (setTimeout a ms s)) = action s"
  "fetchCalls (snd (setTimeout a ms s)) = fetchCalls s"
  "pending (snd (setTimeout a ms s)) = pending s"
  "toasts (snd (setTimeout a ms s)) = toasts s" "clock (snd (setTimeout a ms s)) = clock s"
  "debounceTimeout (snd (setTimeout a ms s)) = debounceTimeout s"
  "fired (snd (setTimeout a ms s)) = fired s"
  "nextHandle (snd (setTimeout a ms s)) = Suc (nextHandle s)"
  "timers (snd (setTimeout a ms s)) =
     timers s @ [\<lparr>handle = nextHandle s, due = clock s + ms, act = a\<rparr>]"
  "fst (setTimeout a ms s) = nextHandle s"
  by (simp_all add: setTimeout_def)

lemma showMessage_sel:
  "inputs (showMessage x y s) = inputs s" "fieldErrors (showMessage x y s) = fieldErrors s"
  "submitBtn (showMessage x y s) = submitBtn s" "action (showMessage x y s) = action s"
  "fetchCalls (showMessage x y s) = fetchCalls s" "pending (showMessage x y s) = pending s"
  "clock (showMessage x y s) = clock s"
  "debounceTimeout (showMessage x y s) = debounceTimeout s" "fired (showMessage x y s) = fired s"
  "nextHandle (showMessage x y s) = Suc (Suc (nextHandle s))"
  "toasts (showMessage x y s) =
     toasts s @ [\<lparr>ttext = x, tclass = js ''form-message '' @ y, shown = False, attached = True\<rparr>]"
  "timers (showMessage x y s) =
     timers s @ [\<lparr>handle = nextHandle s, due = clock s + 100, act = ToastShow (length (toasts s))\<rparr>,
                 \<lparr>handle = Suc (nextHandle s), due = clock s + 3000, act = ToastHide (length (toasts s))\<rparr>]"
  by (simp_all add: showMessage_def Let_def setTimeout_sel)

lemmas validateField_sel = strip_eqD(1-10) [OF strip_validateField]

lemma later_sel:
  "submitBtn (later i s) = submitBtn s" "action (later i s) = action s"
  "fetchCalls (later i s) = fetchCalls s" "pending (later i s) = pending s"
  "toasts (later i s) = toasts s" "clock (later i s) = clock s"
  "nextHandle (later i s) = nextHandle s"
  "debounceTimeout (later i s) = debounceTimeout s" "fired (later i s) = fired s"
  by (simp_all add: later_def validateField_sel clearTimeout_sel)

lemma executedFunction_sel:
  "inputs (executedFunction i s) = inputs s" "fieldErrors (executedFunction i s) = fieldErrors s"
  "submitBtn (executedFunction i s) = submitBtn s" "action (executedFunction i s) = action s"
  "fetchCalls (executedFunction i s) = fetchCalls s" "pending (executedFunction i s) = pending s"
  "toasts (executedFunction i s) = toasts s" "clock (executedFunction i s) = clock s"
  "fired (executedFunction i s) = fired s"
  by (simp_all add: executedFunction_def Let_def setTimeout_def clearTimeout_sel split: prod.split)

lemma run_action_sel:
  "submitBtn (run_action a s) = submitBtn s" "action (run_action a s) = action s"
  "fetchCalls (run_action a s) = fetchCalls s" "pending (run_action a s) = pending s"
  "clock (run_action a s) = clock s" "fired (run_action a s) = fired s"
  by (simp_all add: run_action_def later_sel setTimeout_sel split: action.split)

lemma fire_sel:
  "submitBtn (fire s t) = submitBtn s" "action (fire s t) = action s"
  "fetchCalls (fire s t) = fetchCalls s" "pending (fire s t) = pending s"
  "clock (fire s t) = clock s"
  by (simp_all add: fire_def run_action_sel)

lemma foldl_fire_frame:
  assumes "\<And>s t. g (fire s t) = g s"
  shows "g (foldl fire s ts) = g s"
  by (induction ts arbitrary: s) (simp_all add: assms)

lemma tick_sel:
  "submitBtn (tick s) = submitBtn s" "action (tick s) = action s"
  "fetchCalls (tick s) = fetchCalls s" "pending (tick s) = pending s"
  "clock (tick s) = Suc (clock s)"
  by (simp_all add: tick_def Let_def foldl_fire_frame [where g = submitBtn]
      foldl_fire_frame [where g = action] foldl_fire_frame [where g = fetchCalls]
      foldl_fire_frame [where g = pending] foldl_fire_frame [where g = clock] fire_sel)

lemma run_append: "run s (es @ fs) = run (run s es) fs"
  by (simp add: run_def)

lemma run_Cons: "run s (e # es) = run (step s e) es"
  by (simp add: run_def)

lemma run_Nil: "run s [] = s"
  by (simp add: run_def)

lemma run_Tick: "run s (Tick # es) = run (tick s) es"
  by (simp add: run_def step_def)

lemma step_quiet:
  assumes "quiet e"
  shows "submitBtn (step s e) = submitBtn s" "pending (step s e) = pending s"
    "fetchCalls (step s e) = fetchCalls s"
  using assms
  by (cases e; simp add: step_def quiet_def validateField_sel executedFunction_sel tick_sel)+

lemma run_quiet:
  assumes "\<forall>e\<in>set es. quiet e"
  shows "submitBtn (run s es) = submitBtn s \<and> pending (run s es) = pending s \<and>
    fetchCalls (run s es) = fetchCalls s"
  using assms unfolding run_def
  by (induction es arbitrary: s) (simp_all add: step_quiet)

lemma resume_sel:
  assumes "k < length (pending s)"
  shows "submitBtn (resume k r s) =
      map_option (\<lambda>b. \<lparr>disabled = False, textContent = pending s ! k\<rparr>) (submitBtn s)"
    and "pending (resume k r s) = take k (pending s) @ drop (Suc k) (pending s)"
    and "fetchCalls (resume k r s) = fetchCalls s"
    and "inputs (resume k r s) =
      (if r = Resolved True then map (\<lambda>f. f\<lparr>fvalue := fdefault f\<rparr>) (inputs s) else inputs s)"
    and "toasts (resume k r s) = toasts s @
      [if r = Resolved True
       then \<lparr>ttext = msg_success, tclass = js ''form-message '' @ js ''success'', shown = False, attached = True\<rparr>
       else \<lparr>ttext = msg_failure, tclass = js ''form-message '' @ js ''error'', shown = False, attached = True\<rparr>]"
    and "fieldErrors (resume k r s) = fieldErrors s"
  using assms
  by (simp_all add: resume_def Let_def reset_def showMessage_sel map_option_case
      split: outcome.split bool.split option.split)

lemma handleSubmit_sel:
  "map fvalue (inputs (handleSubmit s)) = map fvalue (inputs s)"
  "submitBtn s = Some b \<Longrightarrow> list_all (\<lambda>f. fst (validate f)) (inputs s) \<Longrightarrow>
     submitBtn (handleSubmit s) = Some \<lparr>disabled = True, textContent = msg_busy\<rparr> \<and>
     pending (handleSubmit s) = pending s @ [textContent b]"
proof -
  obtain ok s1 where v: "validateForm s = (ok, s1)" by (cases "validateForm s")
  then have s1: "strip s1 = strip s" using validateForm_strip [of s] by simp
  have ok: "ok \<longleftrightarrow> (\<forall>f\<in>set (inputs s). fst (validate f))" using v validateForm_fst [of s] by simp
  show "map fvalue (inputs (handleSubmit s)) = map fvalue (inputs s)"
    using v strip_inputs(2) [OF s1]
    by (simp add: handleSubmit_def submitForm_def split: option.split)
  assume "submitBtn s = Some b" "list_all (\<lambda>f. fst (validate f)) (inputs s)"
  then show "submitBtn (handleSubmit s) = Some \<lparr>disabled = True, textContent = msg_busy\<rparr> \<and>
     pending (handleSubmit s) = pending s @ [textContent b]"
    using v ok strip_eqD(1,4) [OF s1]
    by (simp add: handleSubmit_def submitForm_def list_all_iff)
qed

lemma loaded_sel:
  "inputs (loaded fs b) = fs" "submitBtn (loaded fs b) = b" "pending (loaded fs b) = []"
  "fetchCalls (loaded fs b) = []" "toasts (loaded fs b) = []" "timers (loaded fs b) = []"
  "clock (loaded fs b) = 0" "fieldErrors (loaded fs b) = (\<lambda>p. [])"
  "action (loaded fs b) = js ''/contact''"
  by (simp_all add: loaded_def)

lemma validate_text_field:
  "validate (text_field n ''x'' d r p) = (True, [])"
  "validate (text_field n ''y'' d r p) = (True, [])"
  "validate (text_field n [] d True p) = (False, msg_required)"
  "validate (text_field n [] d False p) = (True, [])"
  by (simp_all add: validate_def text_field_def trim_def js_def is_ws_def)

lemma trim_x: "trim (js ''x'') = js ''x''" "trim (js ''y'') = js ''y''"
  by (simp_all add: js_def trim_def is_ws_def)

text \<open>
  C1.  The claim is what the form is meant to do; the code misses a case.  A form in which
  no element matches \<^verbatim>\<open>[type="submit"]\<close> (a \<^verbatim>\<open><button>\<close> without the attribute submits a
  form as well) has one control, and the control is valid.  On submit \<^verbatim>\<open>validateForm\<close>
  returns true, \<^verbatim>\<open>submitForm\<close> throws when it reads the label of the missing control, and
  \<^verbatim>\<open>fetch\<close> is not called: nothing is sent, nothing is pending, and no toast is shown.
\<close>

theorem submit_without_control:
  "fst (validateForm (loaded [text_field ''note'' ''x'' '''' True 0] None)) \<and>
   fetchCalls (handleSubmit (loaded [text_field ''note'' ''x'' '''' True 0] None)) = [] \<and>
   pending (handleSubmit (loaded [text_field ''note'' ''x'' '''' True 0] None)) = [] \<and>
   toasts (handleSubmit (loaded [text_field ''note'' ''x'' '''' True 0] None)) = []"
  by (simp add: handleSubmit_no_button validateForm_fst loaded_sel validate_text_field)










text \<open>
  C6, amended.  A submit does not change the value of any control.  When a pending
  \<^verbatim>\<open>fetch\<close> settles with a response that is not ok, or by rejection, the values stay as
  they are and an error toast is added; when it settles with a response that is ok, every
  control goes back to its default value and a success toast is added.
\<close>

theorem settle_values_and_toast:
  "k < length (pending s) \<Longrightarrow>
     field_values (handleSubmit s0) = field_values s0 \<and>
     field_values (resume k (Resolved False) s) = field_values s \<and>
     toasts (resume k (Resolved False) s) = toasts s @ [new_toast msg_failure ''error''] \<and>
     field_values (resume k Rejected s) = field_values s \<and>
     toasts (resume k Rejected s) = toasts s @ [new_toast msg_failure ''error''] \<and>
     field_values (resume k (Resolved True) s) = map fdefault (inputs s) \<and>
     toasts (resume k (Resolved True) s) = toasts s @ [new_toast msg_success ''success'']"
proof -
  assume k: "k < length (pending s)"
  have "field_values (handleSubmit s0) = field_values s0"
    by (simp add: field_values_def handleSubmit_sel(1))
  moreover have "field_values (resume k (Resolved True) s) = map fdefault (inputs s)"
    using resume_sel(4) [OF k, of "Resolved True"] by (simp add: field_values_def comp_def)
  moreover have "field_values (resume k (Resolved False) s) = field_values s"
    using resume_sel(4) [OF k, of "Resolved False"] by (simp add: field_values_def)
  moreover have "field_values (resume k Rejected s) = field_values s"
    using resume_sel(4) [OF k, of "Rejected"] by (simp add: field_values_def)
  moreover have "toasts (resume k (Resolved True) s) = toasts s @ [new_toast msg_success ''success'']"
    using resume_sel(5) [OF k, of "Resolved True"] by (simp add: new_toast_def)
  moreover have "toasts (resume k (Resolved False) s) = toasts s @ [new_toast msg_failure ''error'']"
    using resume_sel(5) [OF k, of "Resolved False"] by (simp add: new_toast_def)
  moreover have "toasts (resume k Rejected s) = toasts s @ [new_toast msg_failure ''error'']"
    using resume_sel(5) [OF k, of "Rejected"] by (simp add: new_toast_def)
  ultimately show ?thesis by simp
qed




lemma handleSubmit_defaults: "map fdefault (inputs (handleSubmit s)) = map fdefault (inputs s)"
proof -
  obtain ok s1 where v: "validateForm s = (ok, s1)" by (cases "validateForm s")
  then have s1: "strip s1 = strip s" using validateForm_strip [of s] by simp
  show ?thesis
    using v strip_inputs(3) [OF s1]
    by (simp add: handleSubmit_def submitForm_def split: option.split)
qed

theorem settle_values_and_toast_witness:
  "field_values (resume 0 (Resolved False)
      (handleSubmit (loaded [text_field ''plan'' ''y'' ''x'' False 0]
         (Some \<lparr>disabled = False, textContent = js ''Send''\<rparr>)))) = [js ''y'']"
proof -
  let ?s0 = "loaded [text_field ''plan'' ''y'' ''x'' False 0]
         (Some \<lparr>disabled = False, textContent = js ''Send''\<rparr>)"
  have p: "pending (handleSubmit ?s0) = [js ''Send'']"
    using handleSubmit_sel(2) [of ?s0 "\<lparr>disabled = False, textContent = js ''Send''\<rparr>"]
    by (simp add: loaded_sel validate_text_field)
  have "field_values (handleSubmit ?s0) = [js ''y'']"
    by (simp add: field_values_def handleSubmit_sel(1) loaded_sel text_field_def)
  then show ?thesis
    using settle_values_and_toast [of 0 "handleSubmit ?s0" ?s0] p by simp
qed

text \<open>
  C6 as stated fails for a control with a default value: after a successful submission
  its value is the default \<open>x\<close>, not the empty string.
\<close>

theorem success_keeps_default_counterexample:
  "field_values (run (loaded [text_field ''plan'' ''y'' ''x'' False 0]
       (Some \<lparr>disabled = False, textContent = js ''Send''\<rparr>)) [Submit, Settle 0 (Resolved True)]) =
     [js ''x''] \<and> js ''x'' \<noteq> []"
proof -
  let ?s0 = "loaded [text_field ''plan'' ''y'' ''x'' False 0]
         (Some \<lparr>disabled = False, textContent = js ''Send''\<rparr>)"
  have p: "pending (handleSubmit ?s0) = [js ''Send'']"
    using handleSubmit_sel(2) [of ?s0 "\<lparr>disabled = False, textContent = js ''Send''\<rparr>"]
    by (simp add: loaded_sel validate_text_field)
  then have k: "0 < length (pending (handleSubmit ?s0))" by simp
  have "map fdefault (inputs (handleSubmit ?s0)) = [js ''x'']"
    by (simp add: handleSubmit_defaults loaded_sel text_field_def)
  then have "field_values (resume 0 (Resolved True) (handleSubmit ?s0)) = [js ''x'']"
    using resume_sel(4) [OF k, of "Resolved True"] by (simp add: field_values_def comp_def)
  then show ?thesis by (simp add: run_def step_def js_nonempty)
qed

section \<open>Inline errors, debounced validation and toasts\<close>

lemma showFieldValidation_eq:
  "showFieldValidation j ok m s =
     s\<lparr>inputs := map_at j (\<lambda>f. f\<lparr>errorClass := \<not> ok\<rparr>) (inputs s),
       fieldErrors := (fieldErrors s)(parent (inputs s ! j) :=
          (if ok then tl (fieldErrors s (parent (inputs s ! j)))
           else m # tl (fieldErrors s (parent (inputs s ! j)))))\<rparr>"
proof (cases "fieldErrors s (parent (inputs s ! j))")
  case Nil
  then have "(fieldErrors s)(parent (inputs s ! j) := []) = fieldErrors s"
    by (simp add: fun_upd_idem)
  with Nil show ?thesis by (simp add: showFieldValidation_def Let_def)
next
  case (Cons e es)
  then show ?thesis by (simp add: showFieldValidation_def Let_def)
qed

lemma validateField_eq:
  "snd (validateField j s) =
     s\<lparr>inputs := map_at j (\<lambda>f. f\<lparr>errorClass := \<not> fst (validate (inputs s ! j))\<rparr>) (inputs s),
       fieldErrors := (fieldErrors s)(parent (inputs s ! j) :=
          (if fst (validate (inputs s ! j)) then tl (fieldErrors s (parent (inputs s ! j)))
           else snd (validate (inputs s ! j)) # tl (fieldErrors s (parent (inputs s ! j))))),
       validated := validated s @ [(clock s, j)]\<rparr>"
  by (simp add: validateField_def showFieldValidation_eq split: prod.split)

lemma map_at_nth:
  "i < length xs \<Longrightarrow> map_at j g xs ! i = (if i = j then g (xs ! i) else xs ! i)"
  by (simp add: map_at_def)

lemma distinct_parents:
  assumes "distinct (map parent xs)" "i < length xs" "j < length xs" "i \<noteq> j"
  shows "parent (xs ! i) \<noteq> parent (xs ! j)"
  using assms by (simp add: distinct_conv_nth)

lemma watched_parents:
  assumes "watched i s" and "map parent (inputs s') = map parent (inputs s)"
    and "\<forall>p\<in>set (map parent (inputs s)). length (fieldErrors s' p) \<le> 1"
  shows "watched i s'"
proof -
  have "length (map parent (inputs s')) = length (map parent (inputs s))"
    using assms(2) by simp
  then have "length (inputs s') = length (inputs s)" by simp
  then show ?thesis using assms unfolding watched_def own_containers_def by simp
qed

lemma watched_nth:
  assumes "watched i s" and "j < length (inputs s)"
  shows "length (fieldErrors s (parent (inputs s ! j))) \<le> 1"
proof -
  have "parent (inputs s ! j) \<in> set (map parent (inputs s))" using assms(2) by simp
  then show ?thesis using assms(1) unfolding watched_def own_containers_def by blast
qed

lemma validateField_watched:
  assumes "watched i s" and "j < length (inputs s)"
  shows "watched i (snd (validateField j s))"
proof -
  let ?s' = "snd (validateField j s)"
  have par: "map parent (inputs ?s') = map parent (inputs s)"
    by (simp add: validateField_eq map_map_at)
  have "\<forall>p\<in>set (map parent (inputs s)). length (fieldErrors ?s' p) \<le> 1"
  proof
    fix p assume "p \<in> set (map parent (inputs s))"
    then have "length (fieldErrors s p) \<le> 1"
      using assms(1) unfolding watched_def own_containers_def by blast
    moreover have "length (fieldErrors s (parent (inputs s ! j))) \<le> 1"
      using assms by (rule watched_nth)
    ultimately show "length (fieldErrors ?s' p) \<le> 1"
      by (simp add: validateField_eq)
  qed
  with assms(1) par show ?thesis by (rule watched_parents)
qed

lemma validateField_sync:
  assumes "watched i s" and "j < length (inputs s)" and "j = i \<or> in_sync s i"
  shows "in_sync (snd (validateField j s)) i"
proof (cases "j = i")
  case True
  have "length (fieldErrors s (parent (inputs s ! i))) \<le> 1"
    using assms(1) watched_nth [of i s i] by (simp add: watched_def)
  then have "tl (fieldErrors s (parent (inputs s ! i))) = []"
    by (cases "fieldErrors s (parent (inputs s ! i))") simp_all
  then show ?thesis using True assms(1)
    by (simp add: in_sync_def displayed_def expected_def validateField_eq map_at_nth
        watched_def validate_errorClass)
next
  case False
  then have "parent (inputs s ! i) \<noteq> parent (inputs s ! j)"
    using assms(1,2) distinct_parents [of "inputs s" i j]
    by (simp add: watched_def own_containers_def)
  then show ?thesis using False assms
    by (simp add: in_sync_def displayed_def expected_def validateField_eq map_at_nth
        watched_def)
qed

lemma same_display:
  assumes "inputs s' = inputs s" and "fieldErrors s' = fieldErrors s"
  shows "watched i s' = watched i s" and "in_sync s' i = in_sync s i"
  using assms by (simp_all add: watched_def own_containers_def in_sync_def displayed_def)

lemma validateField_length: "length (inputs (snd (validateField j s))) = length (inputs s)"
  by (simp add: validateField_eq)

lemma validateInputs_sync:
  assumes "watched i s" and "\<forall>k\<in>set ks. k < length (inputs s)"
  shows "watched i (snd (validateInputs ks b s)) \<and>
     (in_sync s i \<or> i \<in> set ks \<longrightarrow> in_sync (snd (validateInputs ks b s)) i)"
  using assms
proof (induction ks arbitrary: b s)
  case Nil
  then show ?case by simp
next
  case (Cons j ks)
  let ?s1 = "snd (validateField j s)"
  let ?b1 = "if \<not> fst (validateField j s) then False else b"
  have j: "j < length (inputs s)" using Cons.prems(2) by simp
  have w1: "watched i ?s1" using Cons.prems(1) j by (rule validateField_watched)
  have r1: "\<forall>k\<in>set ks. k < length (inputs ?s1)"
    using Cons.prems(2) by (simp add: validateField_length)
  have IH: "watched i (snd (validateInputs ks ?b1 ?s1)) \<and>
     (in_sync ?s1 i \<or> i \<in> set ks \<longrightarrow> in_sync (snd (validateInputs ks ?b1 ?s1)) i)"
    using w1 r1 by (rule Cons.IH)
  have unf: "validateInputs (j # ks) b s = validateInputs ks ?b1 ?s1"
    by (simp add: split_def)
  have "in_sync s i \<or> j = i \<Longrightarrow> in_sync ?s1 i"
    using validateField_sync [OF Cons.prems(1) j] by blast
  then show ?case using IH unf by auto
qed

lemma submitForm_display:
  "inputs (submitForm s) = inputs s" "fieldErrors (submitForm s) = fieldErrors s"
  by (simp_all add: submitForm_def split: option.split)

lemma handleSubmit_sync:
  assumes "watched i s"
  shows "watched i (handleSubmit s) \<and> in_sync (handleSubmit s) i"
proof -
  let ?s1 = "snd (validateForm s)"
  have i: "i \<in> set [0..<length (inputs s)]" using assms by (simp add: watched_def)
  have "watched i ?s1 \<and> in_sync ?s1 i"
    using validateInputs_sync [OF assms, of "[0..<length (inputs s)]" True] i
    unfolding validateForm_def by simp
  moreover have "handleSubmit s = (if fst (validateForm s) then submitForm ?s1 else ?s1)"
    by (simp add: handleSubmit_def split_def)
  ultimately show ?thesis
    by (simp add: same_display [OF submitForm_display])
qed

lemma later_sync:
  assumes "watched i s" and "j < length (inputs s)"
  shows "watched i (later j s)" and "in_sync s i \<or> j = i \<Longrightarrow> in_sync (later j s) i"
proof -
  let ?s0 = "clearTimeout (debounceTimeout s j) s"
  have d: "inputs ?s0 = inputs s" "fieldErrors ?s0 = fieldErrors s"
    by (simp_all add: clearTimeout_sel)
  have w0: "watched i ?s0" using assms(1) same_display(1) [OF d] by simp
  have j0: "j < length (inputs ?s0)" using assms(2) d by simp
  show "watched i (later j s)"
    unfolding later_def using w0 j0 by (rule validateField_watched)
  assume "in_sync s i \<or> j = i"
  then have "j = i \<or> in_sync ?s0 i" using same_display(2) [OF d] by auto
  with w0 j0 show "in_sync (later j s) i"
    unfolding later_def by (rule validateField_sync)
qed

lemma run_action_sync:
  assumes "watched i s"
  shows "watched i (run_action a s)" and "in_sync s i \<Longrightarrow> in_sync (run_action a s) i"
proof -
  show "watched i (run_action a s)"
  proof (cases a)
    case (Later j)
    then show ?thesis using assms later_sync(1) by (simp add: run_action_def)
  next
    case (ToastShow k)
    then show ?thesis using assms
      by (simp add: run_action_def watched_def own_containers_def)
  next
    case (ToastHide k)
    then show ?thesis using assms
      by (simp add: run_action_def watched_def own_containers_def setTimeout_sel)
  next
    case (ToastRemove k)
    then show ?thesis using assms
      by (simp add: run_action_def watched_def own_containers_def)
  qed
  assume "in_sync s i"
  then show "in_sync (run_action a s) i"
  proof (cases a)
    case (Later j)
    assume "in_sync s i"
    then show ?thesis using Later assms later_sync(2) by (simp add: run_action_def)
  next
    case (ToastShow k)
    assume "in_sync s i"
    then show ?thesis using ToastShow
      by (simp add: run_action_def in_sync_def displayed_def)
  next
    case (ToastHide k)
    assume "in_sync s i"
    then show ?thesis using ToastHide
      by (simp add: run_action_def in_sync_def displayed_def setTimeout_sel)
  next
    case (ToastRemove k)
    assume "in_sync s i"
    then show ?thesis using ToastRemove
      by (simp add: run_action_def in_sync_def displayed_def)
  qed
qed

lemma fire_sync:
  assumes "watched i s"
  shows "watched i (fire s t)" and "in_sync s i \<Longrightarrow> in_sync (fire s t) i"
proof -
  let ?s0 = "s\<lparr>timers := filter (\<lambda>u. handle u \<noteq> handle t) (timers s),
             fired := fired s @ [(clock s, act t)]\<rparr>"
  have d: "inputs ?s0 = inputs s" "fieldErrors ?s0 = fieldErrors s" by simp_all
  have w0: "watched i ?s0" using assms same_display(1) [OF d] by simp
  show "watched i (fire s t)"
    using assms run_action_sync(1) [OF w0] by (simp add: fire_def)
  assume "in_sync s i"
  then have "in_sync ?s0 i" using same_display(2) [OF d] by simp
  then show "in_sync (fire s t) i"
    using \<open>in_sync s i\<close> run_action_sync(2) [OF w0] by (simp add: fire_def)
qed

lemma foldl_fire_sync:
  assumes "watched i s"
  shows "watched i (foldl fire s ts) \<and> (in_sync s i \<longrightarrow> in_sync (foldl fire s ts) i)"
  using assms
proof (induction ts arbitrary: s)
  case Nil
  then show ?case by simp
next
  case (Cons t ts)
  have "watched i (fire s t)" using Cons.prems by (rule fire_sync)
  then show ?case using Cons.IH [of "fire s t"] fire_sync(2) [OF Cons.prems] by simp
qed

lemma tick_sync:
  assumes "watched i s"
  shows "watched i (tick s) \<and> (in_sync s i \<longrightarrow> in_sync (tick s) i)"
proof -
  let ?s1 = "s\<lparr>clock := Suc (clock s)\<rparr>"
  have d: "inputs ?s1 = inputs s" "fieldErrors ?s1 = fieldErrors s" by simp_all
  have "watched i ?s1" using assms same_display(1) [OF d] by simp
  then show ?thesis
    using foldl_fire_sync [of i ?s1] same_display(2) [OF d]
    by (simp add: tick_def Let_def)
qed

lemma input_sync:
  assumes "watched i s" and "j < length (inputs s)"
  shows "watched i (executedFunction j (s\<lparr>inputs := map_at j (\<lambda>f. f\<lparr>fvalue := v\<rparr>) (inputs s)\<rparr>))"
    and "j \<noteq> i \<Longrightarrow> in_sync s i \<Longrightarrow>
      in_sync (executedFunction j (s\<lparr>inputs := map_at j (\<lambda>f. f\<lparr>fvalue := v\<rparr>) (inputs s)\<rparr>)) i"
proof -
  let ?s' = "executedFunction j (s\<lparr>inputs := map_at j (\<lambda>f. f\<lparr>fvalue := v\<rparr>) (inputs s)\<rparr>)"
  have inp: "inputs ?s' = map_at j (\<lambda>f. f\<lparr>fvalue := v\<rparr>) (inputs s)"
    and err: "fieldErrors ?s' = fieldErrors s"
    by (simp_all add: executedFunction_sel)
  have par: "map parent (inputs ?s') = map parent (inputs s)"
    by (simp add: inp map_map_at)
  have "\<forall>p\<in>set (map parent (inputs s)). length (fieldErrors ?s' p) \<le> 1"
    using assms(1) unfolding err watched_def own_containers_def by blast
  with assms(1) par show "watched i ?s'" by (rule watched_parents)
  assume "j \<noteq> i" "in_sync s i"
  moreover have "i < length (inputs s)" using assms(1) by (simp add: watched_def)
  ultimately show "in_sync ?s' i"
    by (simp add: in_sync_def displayed_def inp err map_at_nth)
qed

lemma reset_watched:
  assumes "watched i s"
  shows "watched i (reset s)"
proof -
  have par: "map parent (inputs (reset s)) = map parent (inputs s)"
    by (simp add: reset_def comp_def)
  have "\<forall>p\<in>set (map parent (inputs s)). length (fieldErrors (reset s) p) \<le> 1"
    using assms unfolding watched_def own_containers_def by (simp add: reset_def)
  with assms par show ?thesis by (rule watched_parents)
qed

lemma resume_sync:
  assumes "watched i s"
  shows "watched i (resume k r s)"
    and "r \<noteq> Resolved True \<Longrightarrow> in_sync s i \<Longrightarrow> in_sync (resume k r s) i"
proof -
  show "watched i (resume k r s)"
  proof (cases "k < length (pending s)")
    case True
    have par: "map parent (inputs (resume k r s)) = map parent (inputs s)"
      by (simp add: resume_sel(4) [OF True] comp_def)
    have "\<forall>p\<in>set (map parent (inputs s)). length (fieldErrors (resume k r s) p) \<le> 1"
      using assms unfolding watched_def own_containers_def by (simp add: resume_sel(6) [OF True])
    with assms par show ?thesis by (rule watched_parents)
  next
    case False
    then show ?thesis using assms by (simp add: resume_def)
  qed
  assume r: "r \<noteq> Resolved True" and s: "in_sync s i"
  show "in_sync (resume k r s) i"
  proof (cases "k < length (pending s)")
    case True
    show ?thesis
      using s r by (simp add: in_sync_def displayed_def resume_sel(4,6) [OF True])
  next
    case False
    then show ?thesis using s by (simp add: resume_def)
  qed
qed

lemma step_watched:
  assumes "watched i s"
  shows "watched i (step s e)"
proof (cases e)
  case (Blur j)
  then show ?thesis using assms validateField_watched by (simp add: step_def)
next
  case (Input j v)
  then show ?thesis using assms input_sync(1) by (simp add: step_def)
next
  case Submit
  then show ?thesis using handleSubmit_sync [OF assms] by (simp add: step_def)
next
  case (Settle k r)
  then show ?thesis using resume_sync(1) [OF assms] by (simp add: step_def)
next
  case Tick
  then show ?thesis using tick_sync [OF assms] by (simp add: step_def)
qed

lemma step_sync:
  assumes "watched i s" and "in_sync s i" and "\<not> disturbs i e"
  shows "in_sync (step s e) i"
proof (cases e)
  case (Blur j)
  then show ?thesis using assms validateField_sync [of i s j] by (simp add: step_def)
next
  case (Input j v)
  then show ?thesis using assms input_sync(2) [of i s j v]
    by (simp add: step_def disturbs_def)
next
  case Submit
  then show ?thesis using handleSubmit_sync [OF assms(1)] by (simp add: step_def)
next
  case (Settle k r)
  then show ?thesis using resume_sync(2) [OF assms(1), of r k] assms(2,3)
    by (simp add: step_def disturbs_def)
next
  case Tick
  then show ?thesis using tick_sync [OF assms(1)] assms(2) by (simp add: step_def)
qed


lemma run_sync:
  assumes "watched i s" and "in_sync s i" and "\<forall>e\<in>set es. \<not> disturbs i e"
  shows "in_sync (run s es) i"
  using assms unfolding run_def
proof (induction es arbitrary: s)
  case Nil
  then show ?case by simp
next
  case (Cons e es)
  have "watched i (step s e)" using Cons.prems(1) by (rule step_watched)
  moreover have "in_sync (step s e) i" using Cons.prems by (simp add: step_sync)
  ultimately show ?case using Cons.IH [of "step s e"] Cons.prems(3) by simp
qed

lemma table_okD:
  assumes "table_ok ts n dt"
  shows "distinct (map handle ts)"
    and "\<And>t. t \<in> set ts \<Longrightarrow> handle t < n"
    and "\<And>i h. dt i = Some h \<Longrightarrow> h < n"
    and "\<And>i h t. dt i = Some h \<Longrightarrow> t \<in> set ts \<Longrightarrow> handle t = h \<Longrightarrow> act t = Later i"
    and "\<And>t i. t \<in> set ts \<Longrightarrow> act t = Later i \<Longrightarrow> dt i = Some (handle t)"
  using assms unfolding table_ok_def by blast+

lemma table_okI:
  assumes "distinct (map handle ts)"
    and "\<And>t. t \<in> set ts \<Longrightarrow> handle t < n"
    and "\<And>i h. dt i = Some h \<Longrightarrow> h < n"
    and "\<And>i h t. dt i = Some h \<Longrightarrow> t \<in> set ts \<Longrightarrow> handle t = h \<Longrightarrow> act t = Later i"
    and "\<And>t i. t \<in> set ts \<Longrightarrow> act t = Later i \<Longrightarrow> dt i = Some (handle t)"
  shows "table_ok ts n dt"
  unfolding table_ok_def using assms by blast

lemma table_ok_filter: "table_ok ts n dt \<Longrightarrow> table_ok (filter p ts) n dt"
  unfolding table_ok_def by (simp add: distinct_map_filter)

lemma fresh_handle:
  assumes "table_ok ts n dt" and "handle u = n"
  shows "distinct (map handle (ts @ [u]))"
proof -
  have "n \<notin> handle ` set ts"
  proof
    assume "n \<in> handle ` set ts"
    then obtain t where "t \<in> set ts" "handle t = n" by auto
    then show False using table_okD(2) [OF assms(1), of t] by simp
  qed
  then show ?thesis using table_okD(1) [OF assms(1)] assms(2) by simp
qed

lemma table_ok_add:
  assumes "table_ok ts n dt" and "handle u = n" and "\<forall>i. act u \<noteq> Later i"
  shows "table_ok (ts @ [u]) (Suc n) dt"
proof (rule table_okI)
  show "distinct (map handle (ts @ [u]))"
    using assms(1,2) by (rule fresh_handle)
next
  fix t assume "t \<in> set (ts @ [u])"
  then have "t \<in> set ts \<or> t = u" by auto
  then show "handle t < Suc n" using table_okD(2) [OF assms(1), of t] assms(2) by auto
next
  fix i h assume "dt i = Some h"
  then show "h < Suc n" using table_okD(3) [OF assms(1), of i h] by simp
next
  fix i h t
  assume dt: "dt i = Some h" and t: "t \<in> set (ts @ [u])" and h: "handle t = h"
  have "h < n" using dt by (rule table_okD(3) [OF assms(1)])
  then have "t \<in> set ts" using t h assms(2) by auto
  with dt show "act t = Later i" using h by (rule table_okD(4) [OF assms(1)])
next
  fix t i
  assume t: "t \<in> set (ts @ [u])" and a: "act t = Later i"
  have "t \<in> set ts" using t a assms(3) by auto
  then show "dt i = Some (handle t)" using a by (rule table_okD(5) [OF assms(1)])
qed

lemma table_ok_arm:
  assumes "table_ok ts n dt" and "\<forall>t\<in>set ts. act t \<noteq> Later i"
    and "handle u = n" and "act u = Later i"
  shows "table_ok (ts @ [u]) (Suc n) (dt(i := Some n))"
proof (rule table_okI)
  show "distinct (map handle (ts @ [u]))"
    using assms(1,3) by (rule fresh_handle)
next
  fix t assume "t \<in> set (ts @ [u])"
  then have "t \<in> set ts \<or> t = u" by auto
  then show "handle t < Suc n" using table_okD(2) [OF assms(1), of t] assms(3) by auto
next
  fix j h assume "(dt(i := Some n)) j = Some h"
  then have "h = n \<or> dt j = Some h" by (simp split: if_splits)
  then show "h < Suc n" using table_okD(3) [OF assms(1), of j h] by auto
next
  fix j h t
  assume dt: "(dt(i := Some n)) j = Some h" and t: "t \<in> set (ts @ [u])" and h: "handle t = h"
  show "act t = Later j"
  proof (cases "j = i")
    case True
    then have "h = n" using dt by simp
    then have "t \<notin> set ts" using h table_okD(2) [OF assms(1), of t] by auto
    then show ?thesis using t True assms(4) by simp
  next
    case False
    then have d: "dt j = Some h" using dt by simp
    then have "h < n" by (rule table_okD(3) [OF assms(1)])
    then have "t \<in> set ts" using t h assms(3) by auto
    with d show ?thesis using h by (rule table_okD(4) [OF assms(1)])
  qed
next
  fix t j
  assume t: "t \<in> set (ts @ [u])" and a: "act t = Later j"
  show "(dt(i := Some n)) j = Some (handle t)"
  proof (cases "t \<in> set ts")
    case True
    then have "j \<noteq> i" using assms(2) a by auto
    moreover have "dt j = Some (handle t)" using True a by (rule table_okD(5) [OF assms(1)])
    ultimately show ?thesis by simp
  next
    case False
    then have "t = u" using t by simp
    then show ?thesis using a assms(3,4) by simp
  qed
qed

lemma table_ok_cleared:
  assumes "table_ok ts n dt" and "dt i = Some h"
  shows "\<forall>t\<in>set (filter (\<lambda>t. handle t \<noteq> h) ts). act t \<noteq> Later i"
proof
  fix t assume "t \<in> set (filter (\<lambda>t. handle t \<noteq> h) ts)"
  then have t: "t \<in> set ts" and h: "handle t \<noteq> h" by simp_all
  show "act t \<noteq> Later i"
  proof
    assume "act t = Later i"
    with t have "dt i = Some (handle t)" by (rule table_okD(5) [OF assms(1)])
    then show False using assms(2) h by simp
  qed
qed

lemma table_ok_unset:
  assumes "table_ok ts n dt" and "dt i = None"
  shows "\<forall>t\<in>set ts. act t \<noteq> Later i"
proof
  fix t assume t: "t \<in> set ts"
  show "act t \<noteq> Later i"
  proof
    assume "act t = Later i"
    with t have "dt i = Some (handle t)" by (rule table_okD(5) [OF assms(1)])
    then show False using assms(2) by simp
  qed
qed

lemma handles_ok_same:
  assumes "timers s' = timers s" "nextHandle s' = nextHandle s"
    "debounceTimeout s' = debounceTimeout s"
  shows "handles_ok s' = handles_ok s"
  using assms by (simp add: handles_ok_def)

lemma clearTimeout_timers:
  "timers (clearTimeout h s) =
     (case h of None \<Rightarrow> timers s | Some k \<Rightarrow> filter (\<lambda>t. handle t \<noteq> k) (timers s))"
  by (simp add: clearTimeout_def split: option.split)

lemma handles_ok_clearTimeout: "handles_ok s \<Longrightarrow> handles_ok (clearTimeout h s)"
  unfolding handles_ok_def
  by (cases h) (simp_all add: clearTimeout_timers clearTimeout_sel table_ok_filter)

lemma clear_own:
  assumes "handles_ok s"
  shows "\<forall>t\<in>set (timers (clearTimeout (debounceTimeout s i) s)). act t \<noteq> Later i"
proof (cases "debounceTimeout s i")
  case None
  then show ?thesis
    using table_ok_unset [of "timers s" "nextHandle s" "debounceTimeout s" i] assms
    by (simp add: handles_ok_def clearTimeout_timers)
next
  case (Some h)
  then show ?thesis
    using table_ok_cleared [of "timers s" "nextHandle s" "debounceTimeout s" i h] assms
    by (simp add: handles_ok_def clearTimeout_timers)
qed

lemma clear_others:
  assumes "handles_ok s" and "\<not> about (Later i)"
  shows "mine about (clearTimeout (debounceTimeout s i) s) = mine about s"
proof (cases "debounceTimeout s i")
  case None
  then show ?thesis by (simp add: mine_def clearTimeout_timers)
next
  case (Some h)
  have "\<forall>t\<in>set (timers s). about (act t) \<longrightarrow> handle t \<noteq> h"
  proof (intro ballI impI)
    fix t assume t: "t \<in> set (timers s)" and a: "about (act t)"
    show "handle t \<noteq> h"
    proof
      assume "handle t = h"
      then have "act t = Later i"
        using table_okD(4) [of "timers s" "nextHandle s" "debounceTimeout s" i h t] assms(1) Some t
        by (simp add: handles_ok_def)
      then show False using a assms(2) by simp
    qed
  qed
  then have "filter (\<lambda>t. about (act t) \<and> handle t \<noteq> h) (timers s) =
      filter (\<lambda>t. about (act t)) (timers s)"
    by (intro filter_cong) auto
  then show ?thesis using Some by (simp add: mine_def clearTimeout_timers conj_commute)
qed

lemma later_timers: "timers (later j s) = timers (clearTimeout (debounceTimeout s j) s)"
  by (simp add: later_def validateField_sel)

lemma handles_ok_later: "handles_ok s \<Longrightarrow> handles_ok (later j s)"
  using handles_ok_same [of "later j s" "clearTimeout (debounceTimeout s j) s"]
  by (simp add: later_timers later_sel clearTimeout_sel handles_ok_clearTimeout)

lemma handles_ok_setTimeout:
  assumes "handles_ok s" and "\<forall>i. a \<noteq> Later i"
  shows "handles_ok (snd (setTimeout a ms s))"
  using assms table_ok_add [of "timers s" "nextHandle s" "debounceTimeout s"
      "\<lparr>handle = nextHandle s, due = clock s + ms, act = a\<rparr>"]
  by (simp add: handles_ok_def setTimeout_sel)

lemma handles_ok_toasts: "handles_ok (s\<lparr>toasts := x\<rparr>) = handles_ok s"
  by (simp add: handles_ok_def)

lemma handles_ok_showMessage: "handles_ok s \<Longrightarrow> handles_ok (showMessage x y s)"
  by (simp add: showMessage_def Let_def handles_ok_setTimeout handles_ok_toasts)

lemma handles_ok_run_action: "handles_ok s \<Longrightarrow> handles_ok (run_action a s)"
  by (cases a)
     (simp_all add: run_action_def handles_ok_later handles_ok_setTimeout handles_ok_toasts)

lemma executedFunction_timers:
  "timers (executedFunction i s) =
     timers (clearTimeout (debounceTimeout s i) s) @
       [\<lparr>handle = nextHandle s, due = clock s + 300, act = Later i\<rparr>]"
  "nextHandle (executedFunction i s) = Suc (nextHandle s)"
  "debounceTimeout (executedFunction i s) = (debounceTimeout s)(i := Some (nextHandle s))"
  by (simp_all add: executedFunction_def Let_def setTimeout_def clearTimeout_sel)

lemma handles_ok_executedFunction:
  assumes "handles_ok s"
  shows "handles_ok (executedFunction i s)"
proof -
  let ?s1 = "clearTimeout (debounceTimeout s i) s"
  have "table_ok (timers ?s1) (nextHandle s) (debounceTimeout s)"
    using handles_ok_clearTimeout [OF assms, of "debounceTimeout s i"]
    by (simp add: handles_ok_def clearTimeout_sel)
  moreover have "\<forall>t\<in>set (timers ?s1). act t \<noteq> Later i" using assms by (rule clear_own)
  ultimately show ?thesis
    unfolding handles_ok_def executedFunction_timers
    by (intro table_ok_arm) simp_all
qed

lemma run_action_others:
  assumes "handles_ok s" and "\<not> about a" and "spawn_closed about"
  shows "mine about (run_action a s) = mine about s"
proof (cases a)
  case (Later j)
  then show ?thesis
    using clear_others [OF assms(1), of about j] assms(2)
    by (simp add: run_action_def mine_def later_timers)
next
  case (ToastShow k)
  then show ?thesis by (simp add: run_action_def mine_def)
next
  case (ToastHide k)
  then have "\<not> about (ToastRemove k)" using assms(2,3) by (auto simp: spawn_closed_def)
  then show ?thesis using ToastHide by (simp add: run_action_def mine_def setTimeout_sel)
next
  case (ToastRemove k)
  then show ?thesis by (simp add: run_action_def mine_def)
qed

lemma run_action_new_timers:
  "set (timers (run_action a s)) \<subseteq> set (timers s) \<union> {u. clock s < due u}"
proof (cases a)
  case (Later j)
  then show ?thesis
    by (auto simp: run_action_def later_timers clearTimeout_timers split: option.splits)
next
  case (ToastShow k)
  then show ?thesis by (simp add: run_action_def)
next
  case (ToastHide k)
  then show ?thesis by (auto simp: run_action_def setTimeout_sel)
next
  case (ToastRemove k)
  then show ?thesis by (simp add: run_action_def)
qed

lemma only_handle:
  assumes "handles_ok s" and "t \<in> set (timers s)" and "u \<in> set (timers s)"
    and "handle u = handle t"
  shows "u = t"
proof -
  have "inj_on handle (set (timers s))"
    using assms(1) by (simp add: handles_ok_def table_ok_def distinct_map)
  then show ?thesis using assms(2-4) by (auto dest: inj_onD)
qed

lemma fire_in:
  "t \<in> set (timers s) \<Longrightarrow>
     fire s t = run_action (act t)
       (s\<lparr>timers := filter (\<lambda>u. handle u \<noteq> handle t) (timers s),
          fired := fired s @ [(clock s, act t)]\<rparr>)"
  by (simp add: fire_def)

lemma fire_out: "t \<notin> set (timers s) \<Longrightarrow> fire s t = s"
  by (simp add: fire_def)

lemma handles_ok_unlist:
  "handles_ok s \<Longrightarrow> handles_ok (s\<lparr>timers := filter p (timers s), fired := x\<rparr>)"
  by (simp add: handles_ok_def table_ok_filter)

lemma handles_ok_fire: "handles_ok s \<Longrightarrow> handles_ok (fire s t)"
  by (cases "t \<in> set (timers s)")
     (simp_all add: fire_in fire_out handles_ok_run_action handles_ok_unlist)

lemma handles_ok_foldl_fire: "handles_ok s \<Longrightarrow> handles_ok (foldl fire s ts)"
  by (induction ts arbitrary: s) (simp_all add: handles_ok_fire)

lemma overdue_fire: "overdue (fire s t) \<subseteq> overdue s - {t}"
proof (cases "t \<in> set (timers s)")
  case True
  let ?s0 = "s\<lparr>timers := filter (\<lambda>u. handle u \<noteq> handle t) (timers s),
          fired := fired s @ [(clock s, act t)]\<rparr>"
  have "set (timers (fire s t)) \<subseteq> set (timers ?s0) \<union> {u. clock ?s0 < due u}"
    unfolding fire_in [OF True] by (rule run_action_new_timers)
  moreover have "clock (fire s t) = clock s" by (rule fire_sel)
  ultimately show ?thesis by (auto simp: overdue_def)
next
  case False
  then show ?thesis by (auto simp: fire_out overdue_def)
qed

lemma overdue_foldl_fire: "overdue (foldl fire s ts) \<subseteq> overdue s - set ts"
proof (induction ts arbitrary: s)
  case Nil
  show ?case by simp
next
  case (Cons t ts)
  have "overdue (foldl fire (fire s t) ts) \<subseteq> overdue (fire s t) - set ts" by (rule Cons.IH)
  then show ?case using overdue_fire [of s t] by auto
qed

lemma no_overdue_tick: "no_overdue (tick s)"
proof -
  let ?s1 = "s\<lparr>clock := Suc (clock s)\<rparr>"
  let ?ts = "filter (\<lambda>t. due t \<le> clock ?s1) (timers ?s1)"
  have "overdue (foldl fire ?s1 ?ts) \<subseteq> overdue ?s1 - set ?ts" by (rule overdue_foldl_fire)
  moreover have "overdue ?s1 - set ?ts = {}" by (auto simp: overdue_def)
  ultimately have "overdue (foldl fire ?s1 ?ts) = {}" by blast
  then have "overdue (tick s) = {}" by (simp add: tick_def Let_def)
  then show ?thesis by (auto simp: overdue_def no_overdue_def)
qed

lemma handles_ok_tick: "handles_ok s \<Longrightarrow> handles_ok (tick s)"
proof -
  assume "handles_ok s"
  then have "handles_ok (s\<lparr>clock := Suc (clock s)\<rparr>)" by (simp add: handles_ok_def)
  then show ?thesis by (simp add: tick_def Let_def handles_ok_foldl_fire)
qed

lemma fire_others:
  assumes "handles_ok s" and "spawn_closed about" and "t \<notin> set (mine about s)"
  shows "mine about (fire s t) = mine about s" and "logged about (fire s t) = logged about s"
proof -
  show "mine about (fire s t) = mine about s"
  proof (cases "t \<in> set (timers s)")
    case True
    then have na: "\<not> about (act t)" using assms(3) by (simp add: mine_def)
    let ?s0 = "s\<lparr>timers := filter (\<lambda>u. handle u \<noteq> handle t) (timers s),
          fired := fired s @ [(clock s, act t)]\<rparr>"
    have ok0: "handles_ok ?s0" using assms(1) by (rule handles_ok_unlist)
    have "\<forall>u\<in>set (timers s). about (act u) \<longrightarrow> handle u \<noteq> handle t"
    proof (intro ballI impI)
      fix u assume u: "u \<in> set (timers s)" and a: "about (act u)"
      show "handle u \<noteq> handle t"
      proof
        assume "handle u = handle t"
        with assms(1) True u have "u = t" by (rule only_handle)
        then show False using a na by simp
      qed
    qed
    then have "filter (\<lambda>u. about (act u) \<and> handle u \<noteq> handle t) (timers s) =
        filter (\<lambda>u. about (act u)) (timers s)"
      by (intro filter_cong) auto
    then have "mine about ?s0 = mine about s" by (simp add: mine_def conj_commute)
    then show ?thesis
      using run_action_others [OF ok0 na assms(2)] by (simp add: fire_in [OF True])
  next
    case False
    then show ?thesis by (simp add: fire_out)
  qed
  show "logged about (fire s t) = logged about s"
  proof (cases "t \<in> set (timers s)")
    case True
    then have na: "\<not> about (act t)" using assms(3) by (simp add: mine_def)
    then show ?thesis by (simp add: fire_in [OF True] logged_def run_action_sel)
  next
    case False
    then show ?thesis by (simp add: fire_out)
  qed
qed

lemma foldl_fire_others:
  assumes "handles_ok s" and "spawn_closed about" and "\<forall>t\<in>set ts. t \<notin> set (mine about s)"
  shows "mine about (foldl fire s ts) = mine about s \<and>
     logged about (foldl fire s ts) = logged about s"
  using assms
proof (induction ts arbitrary: s)
  case Nil
  show ?case by simp
next
  case (Cons t ts)
  have t: "t \<notin> set (mine about s)" using Cons.prems(3) by simp
  have m: "mine about (fire s t) = mine about s" and l: "logged about (fire s t) = logged about s"
    using fire_others [OF Cons.prems(1,2) t] by simp_all
  have "mine about (foldl fire (fire s t) ts) = mine about (fire s t) \<and>
     logged about (foldl fire (fire s t) ts) = logged about (fire s t)"
    using Cons.prems handles_ok_fire [of s t] m by (intro Cons.IH) simp_all
  then show ?case using m l by simp
qed

lemma spawn_closed_later: "spawn_closed (is_later i)"
  by (simp add: spawn_closed_def is_later_def)

lemma mine_clearTimeout:
  "mine about (clearTimeout h s) =
     (case h of None \<Rightarrow> mine about s | Some k \<Rightarrow> filter (\<lambda>t. handle t \<noteq> k) (mine about s))"
  by (cases h) (simp_all add: mine_def clearTimeout_timers conj_commute)

lemma mine_run_action_nil:
  assumes "mine (is_later i) s = []"
  shows "mine (is_later i) (run_action a s) = []"
proof (cases a)
  case (Later j)
  have "mine (is_later i) (later j s) = mine (is_later i) (clearTimeout (debounceTimeout s j) s)"
    by (simp add: mine_def later_timers)
  then have "mine (is_later i) (later j s) = []"
    using assms by (simp add: mine_clearTimeout split: option.split)
  then show ?thesis using Later assms by (simp add: run_action_def)
next
  case (ToastShow k)
  then show ?thesis using assms by (simp add: run_action_def mine_def)
next
  case (ToastHide k)
  then show ?thesis using assms by (simp add: run_action_def mine_def setTimeout_sel is_later_def)
next
  case (ToastRemove k)
  then show ?thesis using assms by (simp add: run_action_def mine_def)
qed

lemma fire_own:
  assumes "handles_ok s" and "mine (is_later i) s = [t]"
  shows "mine (is_later i) (fire s t) = []"
    and "logged (is_later i) (fire s t) = logged (is_later i) s @ [(clock s, Later i)]"
proof -
  have "t \<in> set (mine (is_later i) s)" using assms(2) by simp
  then have t: "t \<in> set (timers s)" and a: "act t = Later i"
    by (simp_all add: mine_def is_later_def)
  let ?s0 = "s\<lparr>timers := filter (\<lambda>u. handle u \<noteq> handle t) (timers s),
          fired := fired s @ [(clock s, act t)]\<rparr>"
  have "mine (is_later i) ?s0 = filter (\<lambda>u. handle u \<noteq> handle t) (mine (is_later i) s)"
    by (simp add: mine_def conj_commute)
  then have "mine (is_later i) ?s0 = []" using assms(2) by simp
  then show "mine (is_later i) (fire s t) = []"
    unfolding fire_in [OF t] by (rule mine_run_action_nil)
  show "logged (is_later i) (fire s t) = logged (is_later i) s @ [(clock s, Later i)]"
    by (simp add: fire_in [OF t] logged_def run_action_sel a is_later_def)
qed

lemma length_inputs_run_action: "length (inputs (run_action a s)) = length (inputs s)"
  by (cases a)
     (simp_all add: run_action_def later_def validateField_length clearTimeout_sel setTimeout_sel)

lemma length_inputs_fire: "length (inputs (fire s t)) = length (inputs s)"
  by (simp add: fire_def length_inputs_run_action)

lemma length_inputs_tick: "length (inputs (tick s)) = length (inputs s)"
  by (simp add: tick_def Let_def foldl_fire_frame [where g = "\<lambda>s. length (inputs s)"]
      length_inputs_fire)

lemma mine_clock: "mine about (s\<lparr>clock := c\<rparr>) = mine about s"
  and logged_clock: "logged about (s\<lparr>clock := c\<rparr>) = logged about s"
  and handles_ok_clock: "handles_ok (s\<lparr>clock := c\<rparr>) = handles_ok s"
  by (simp_all add: mine_def logged_def handles_ok_def)

lemma tick_unarmed:
  assumes "unarmed i s"
  shows "unarmed i (tick s)" and "logged (is_later i) (tick s) = logged (is_later i) s"
proof -
  let ?s1 = "s\<lparr>clock := Suc (clock s)\<rparr>"
  let ?ts = "filter (\<lambda>t. due t \<le> clock ?s1) (timers ?s1)"
  have ok: "handles_ok ?s1" using assms by (simp add: unarmed_def handles_ok_clock)
  have m: "mine (is_later i) ?s1 = []" using assms by (simp add: unarmed_def mine_clock)
  have "mine (is_later i) (foldl fire ?s1 ?ts) = mine (is_later i) ?s1 \<and>
     logged (is_later i) (foldl fire ?s1 ?ts) = logged (is_later i) ?s1"
    using ok spawn_closed_later by (rule foldl_fire_others) (simp add: m)
  then have "mine (is_later i) (tick s) = []"
    and l: "logged (is_later i) (tick s) = logged (is_later i) s"
    using m by (simp_all add: tick_def Let_def logged_clock)
  then show "unarmed i (tick s)"
    using assms by (simp add: unarmed_def handles_ok_tick length_inputs_tick)
  show "logged (is_later i) (tick s) = logged (is_later i) s" by (rule l)
qed

lemma tick_wait:
  assumes "armed i D s" and "Suc (clock s) < D"
  shows "armed i D (tick s)" and "logged (is_later i) (tick s) = logged (is_later i) s"
proof -
  let ?s1 = "s\<lparr>clock := Suc (clock s)\<rparr>"
  let ?ts = "filter (\<lambda>t. due t \<le> clock ?s1) (timers ?s1)"
  obtain t where t: "mine (is_later i) s = [t]" and d: "due t = D"
    using assms(1) by (auto simp: armed_def)
  have ok: "handles_ok ?s1" using assms(1) by (simp add: armed_def handles_ok_clock)
  have m: "mine (is_later i) ?s1 = [t]" using t by (simp add: mine_clock)
  have "\<forall>u\<in>set ?ts. u \<notin> set (mine (is_later i) ?s1)"
    using assms(2) d by (auto simp: m)
  with ok spawn_closed_later
  have "mine (is_later i) (foldl fire ?s1 ?ts) = mine (is_later i) ?s1 \<and>
     logged (is_later i) (foldl fire ?s1 ?ts) = logged (is_later i) ?s1"
    by (rule foldl_fire_others)
  then have m': "mine (is_later i) (tick s) = [t]"
    and l: "logged (is_later i) (tick s) = logged (is_later i) s"
    using m by (simp_all add: tick_def Let_def logged_clock)
  show "armed i D (tick s)"
    using assms(1) m' d
    by (simp add: armed_def handles_ok_tick no_overdue_tick length_inputs_tick)
  show "logged (is_later i) (tick s) = logged (is_later i) s" by (rule l)
qed

lemma tick_fire:
  assumes "armed i D s" and "Suc (clock s) = D"
  shows "unarmed i (tick s)"
    and "logged (is_later i) (tick s) = logged (is_later i) s @ [(D, Later i)]"
proof -
  let ?s1 = "s\<lparr>clock := Suc (clock s)\<rparr>"
  let ?ts = "filter (\<lambda>t. due t \<le> clock ?s1) (timers ?s1)"
  obtain t where t: "mine (is_later i) s = [t]" and d: "due t = D"
    using assms(1) by (auto simp: armed_def)
  have ok: "handles_ok ?s1" using assms(1) by (simp add: armed_def handles_ok_clock)
  have m: "mine (is_later i) ?s1 = [t]" using t by (simp add: mine_clock)
  have "t \<in> set (mine (is_later i) s)" using t by simp
  then have "t \<in> set (timers s)" by (simp add: mine_def)
  then have "t \<in> set ?ts" using d assms(2) by simp
  then obtain ys zs where split: "?ts = ys @ t # zs" and ys: "t \<notin> set ys"
    by (auto dest: split_list_first)
  let ?sa = "foldl fire ?s1 ys"
  have "\<forall>u\<in>set ys. u \<notin> set (mine (is_later i) ?s1)" using ys by (auto simp: m)
  with ok spawn_closed_later
  have a: "mine (is_later i) ?sa = mine (is_later i) ?s1 \<and>
     logged (is_later i) ?sa = logged (is_later i) ?s1"
    by (rule foldl_fire_others)
  have oka: "handles_ok ?sa" using ok by (rule handles_ok_foldl_fire)
  have ma: "mine (is_later i) ?sa = [t]" using a m by simp
  have ca: "clock ?sa = D"
    using assms(2) by (simp add: foldl_fire_frame [where g = clock] fire_sel)
  let ?sb = "fire ?sa t"
  have mb: "mine (is_later i) ?sb = []"
    and lb: "logged (is_later i) ?sb = logged (is_later i) ?sa @ [(clock ?sa, Later i)]"
    using fire_own [OF oka ma] by simp_all
  have okb: "handles_ok ?sb" using oka by (rule handles_ok_fire)
  have "mine (is_later i) (foldl fire ?sb zs) = mine (is_later i) ?sb \<and>
     logged (is_later i) (foldl fire ?sb zs) = logged (is_later i) ?sb"
    using okb spawn_closed_later by (rule foldl_fire_others) (simp add: mb)
  moreover have "tick s = foldl fire ?sb zs"
    by (simp add: tick_def Let_def split [simplified])
  ultimately have "mine (is_later i) (tick s) = []"
    and l: "logged (is_later i) (tick s) = logged (is_later i) s @ [(D, Later i)]"
    using mb lb a ca by (simp_all add: logged_clock)
  then show "unarmed i (tick s)"
    using assms(1) by (simp add: unarmed_def armed_def handles_ok_tick length_inputs_tick)
  show "logged (is_later i) (tick s) = logged (is_later i) s @ [(D, Later i)]" by (rule l)
qed

lemma input_arms:
  assumes "handles_ok s" and "no_overdue s" and "i < length (inputs s)"
  shows "armed i (clock s + 300) (step s (Input i v))"
    and "logged (is_later i) (step s (Input i v)) = logged (is_later i) s"
    and "clock (step s (Input i v)) = clock s"
proof -
  let ?s0 = "s\<lparr>inputs := map_at i (\<lambda>f. f\<lparr>fvalue := v\<rparr>) (inputs s)\<rparr>"
  let ?s' = "executedFunction i ?s0"
  have st: "step s (Input i v) = ?s'" using assms(3) by (simp add: step_def)
  have ok0: "handles_ok ?s0" using assms(1) by (simp add: handles_ok_def)
  have ok': "handles_ok ?s'" using ok0 by (rule handles_ok_executedFunction)
  let ?c = "clearTimeout (debounceTimeout ?s0 i) ?s0"
  have none: "\<forall>t\<in>set (timers ?c). act t \<noteq> Later i" using ok0 by (rule clear_own)
  then have "filter (\<lambda>t. is_later i (act t)) (timers ?c) = []"
    by (simp add: is_later_def filter_empty_conv)
  then have m: "mine (is_later i) ?s' = [\<lparr>handle = nextHandle s, due = clock s + 300, act = Later i\<rparr>]"
    by (simp add: mine_def executedFunction_timers is_later_def)
  have sub: "set (timers ?c) \<subseteq> set (timers s)"
    by (auto simp: clearTimeout_timers split: option.splits)
  have "no_overdue ?s'"
    using assms(2) sub
    by (auto simp: no_overdue_def executedFunction_timers executedFunction_sel)
  then show "armed i (clock s + 300) (step s (Input i v))"
    unfolding st armed_def using ok' m assms(3) by (simp add: executedFunction_sel)
  show "logged (is_later i) (step s (Input i v)) = logged (is_later i) s"
    unfolding st by (simp add: logged_def executedFunction_sel)
  show "clock (step s (Input i v)) = clock s"
    unfolding st by (simp add: executedFunction_sel)
qed

lemma ticks_wait:
  assumes "armed i D s" and "clock s + g < D"
  shows "armed i D (run s (replicate g Tick)) \<and>
     logged (is_later i) (run s (replicate g Tick)) = logged (is_later i) s \<and>
     clock (run s (replicate g Tick)) = clock s + g"
  using assms
proof (induction g arbitrary: s)
  case 0
  then show ?case by (simp add: run_Nil)
next
  case (Suc g)
  have lt: "Suc (clock s) < D" using Suc.prems(2) by simp
  have a: "armed i D (tick s)" and l: "logged (is_later i) (tick s) = logged (is_later i) s"
    using tick_wait [OF Suc.prems(1) lt] by simp_all
  have c: "clock (tick s) = Suc (clock s)" by (rule tick_sel)
  have "clock (tick s) + g < D" using Suc.prems(2) c by simp
  with a have "armed i D (run (tick s) (replicate g Tick)) \<and>
     logged (is_later i) (run (tick s) (replicate g Tick)) = logged (is_later i) (tick s) \<and>
     clock (run (tick s) (replicate g Tick)) = clock (tick s) + g"
    by (rule Suc.IH)
  then show ?case using l c by (simp add: run_Tick)
qed

lemma ticks_unarmed:
  assumes "unarmed i s"
  shows "unarmed i (run s (replicate g Tick)) \<and>
     logged (is_later i) (run s (replicate g Tick)) = logged (is_later i) s"
  using assms
proof (induction g arbitrary: s)
  case 0
  then show ?case by (simp add: run_Nil)
next
  case (Suc g)
  have "unarmed i (tick s)" and "logged (is_later i) (tick s) = logged (is_later i) s"
    using tick_unarmed [OF Suc.prems] by simp_all
  then show ?case using Suc.IH [of "tick s"] by (simp add: run_Tick)
qed

lemma keystrokes_Nil: "keystrokes i [] = []"
  and keystrokes_Cons:
    "keystrokes i ((g, v) # gvs) = replicate g Tick @ Input i v # keystrokes i gvs"
  by (simp_all add: keystrokes_def)

lemma burst_rearms:
  assumes "armed i (clock s + 300) s" and "\<forall>(g, v)\<in>set gvs. g < 300"
  shows "armed i (clock s + sum_list (map fst gvs) + 300) (run s (keystrokes i gvs)) \<and>
     logged (is_later i) (run s (keystrokes i gvs)) = logged (is_later i) s \<and>
     clock (run s (keystrokes i gvs)) = clock s + sum_list (map fst gvs)"
  using assms
proof (induction gvs arbitrary: s)
  case Nil
  then show ?case by (simp add: keystrokes_Nil run_Nil)
next
  case (Cons gv gvs)
  obtain g v where gv: "gv = (g, v)" by (cases gv)
  have g: "g < 300" using Cons.prems(2) gv by simp
  let ?s1 = "run s (replicate g Tick)"
  have w: "armed i (clock s + 300) ?s1 \<and> logged (is_later i) ?s1 = logged (is_later i) s \<and>
     clock ?s1 = clock s + g"
    using Cons.prems(1) g by (intro ticks_wait) simp_all
  let ?s2 = "step ?s1 (Input i v)"
  have a1: "handles_ok ?s1" "no_overdue ?s1" "i < length (inputs ?s1)"
    using w by (simp_all add: armed_def)
  have a2: "armed i (clock ?s1 + 300) ?s2" and l2: "logged (is_later i) ?s2 = logged (is_later i) ?s1"
    and c2: "clock ?s2 = clock ?s1"
    using input_arms [OF a1, of v] by simp_all
  have "armed i (clock ?s2 + 300) ?s2" using a2 c2 by simp
  moreover have "\<forall>(g, v)\<in>set gvs. g < 300" using Cons.prems(2) by simp
  ultimately have "armed i (clock ?s2 + sum_list (map fst gvs) + 300) (run ?s2 (keystrokes i gvs)) \<and>
     logged (is_later i) (run ?s2 (keystrokes i gvs)) = logged (is_later i) ?s2 \<and>
     clock (run ?s2 (keystrokes i gvs)) = clock ?s2 + sum_list (map fst gvs)"
    by (rule Cons.IH)
  moreover have "run s (keystrokes i (gv # gvs)) = run ?s2 (keystrokes i gvs)"
    by (simp add: gv keystrokes_Cons run_append run_Cons)
  ultimately show ?case using w l2 c2 gv by (simp add: add.assoc)
qed

lemma quiet_period:
  assumes "armed i (clock s + 300) s"
  shows "logged (is_later i) (run s (replicate d Tick)) =
     logged (is_later i) s @ (if 300 \<le> d then [(clock s + 300, Later i)] else [])"
proof (cases "300 \<le> d")
  case False
  then have "clock s + d < clock s + 300" by simp
  with assms show ?thesis using False ticks_wait [of i "clock s + 300" s d] by simp
next
  case True
  then obtain r where "d = 300 + r" by (auto simp: le_iff_add)
  then have d: "d = 299 + Suc r" by simp
  let ?s1 = "run s (replicate 299 Tick)"
  have w: "armed i (clock s + 300) ?s1 \<and> logged (is_later i) ?s1 = logged (is_later i) s \<and>
     clock ?s1 = clock s + 299"
    using assms by (intro ticks_wait) simp_all
  then have due: "Suc (clock ?s1) = clock s + 300" by simp
  have u: "unarmed i (tick ?s1)"
    and l: "logged (is_later i) (tick ?s1) = logged (is_later i) ?s1 @ [(clock s + 300, Later i)]"
    using tick_fire [OF _ due] w by simp_all
  have "logged (is_later i) (run (tick ?s1) (replicate r Tick)) = logged (is_later i) (tick ?s1)"
    using ticks_unarmed [OF u] by simp
  moreover have "run s (replicate d Tick) = run (tick ?s1) (replicate r Tick)"
    unfolding d by (simp only: replicate_add run_append replicate_Suc run_Tick)
  ultimately show ?thesis using True l w by simp
qed

lemma handleSubmit_timers:
  "timers (handleSubmit s) = timers s" "nextHandle (handleSubmit s) = nextHandle s"
  "debounceTimeout (handleSubmit s) = debounceTimeout s" "clock (handleSubmit s) = clock s"
  "toasts (handleSubmit s) = toasts s" "fired (handleSubmit s) = fired s"
proof -
  let ?s1 = "snd (validateForm s)"
  have s1: "strip ?s1 = strip s" by (rule validateForm_strip)
  have h: "handleSubmit s = (if fst (validateForm s) then submitForm ?s1 else ?s1)"
    by (simp add: handleSubmit_def split_def)
  show "timers (handleSubmit s) = timers s"
    using strip_eqD(7) [OF s1] by (simp add: h submitForm_def split: option.split)
  show "nextHandle (handleSubmit s) = nextHandle s"
    using strip_eqD(8) [OF s1] by (simp add: h submitForm_def split: option.split)
  show "debounceTimeout (handleSubmit s) = debounceTimeout s"
    using strip_eqD(9) [OF s1] by (simp add: h submitForm_def split: option.split)
  show "clock (handleSubmit s) = clock s"
    using strip_eqD(6) [OF s1] by (simp add: h submitForm_def split: option.split)
  show "toasts (handleSubmit s) = toasts s"
    using strip_eqD(5) [OF s1] by (simp add: h submitForm_def split: option.split)
  show "fired (handleSubmit s) = fired s"
    using strip_eqD(10) [OF s1] by (simp add: h submitForm_def split: option.split)
qed

lemma resume_timers:
  "timers (resume k r s) =
     (if k < length (pending s)
      then timers s @ [\<lparr>handle = nextHandle s, due = clock s + 100, act = ToastShow (length (toasts s))\<rparr>,
                 \<lparr>handle = Suc (nextHandle s), due = clock s + 3000, act = ToastHide (length (toasts s))\<rparr>]
      else timers s)"
  "nextHandle (resume k r s) =
     (if k < length (pending s) then Suc (Suc (nextHandle s)) else nextHandle s)"
  "debounceTimeout (resume k r s) = debounceTimeout s"
  "clock (resume k r s) = clock s" "fired (resume k r s) = fired s"
  by (simp_all add: resume_def Let_def reset_def showMessage_sel
      split: outcome.split bool.split)

lemma handles_ok_resume:
  assumes "handles_ok s"
  shows "handles_ok (resume k r s)"
proof (cases "k < length (pending s)")
  case True
  let ?m = "showMessage x y (s\<lparr>pending := p\<rparr>)"
  have "\<And>x y p. handles_ok (showMessage x y (s\<lparr>pending := p\<rparr>))"
    using assms by (intro handles_ok_showMessage) (simp add: handles_ok_def)
  then have "\<And>x y p. table_ok
      (timers s @ [\<lparr>handle = nextHandle s, due = clock s + 100, act = ToastShow (length (toasts s))\<rparr>,
                 \<lparr>handle = Suc (nextHandle s), due = clock s + 3000, act = ToastHide (length (toasts s))\<rparr>])
      (Suc (Suc (nextHandle s))) (debounceTimeout s)"
    by (simp add: handles_ok_def showMessage_sel)
  then show ?thesis using True by (simp add: handles_ok_def resume_timers)
next
  case False
  then show ?thesis using assms by (simp add: resume_def)
qed

lemma handles_ok_step:
  assumes "handles_ok s"
  shows "handles_ok (step s e)"
proof (cases e)
  case (Blur j)
  then show ?thesis using assms
    using handles_ok_same [of "snd (validateField j s)" s]
    by (simp add: step_def validateField_sel)
next
  case (Input j v)
  have "handles_ok (s\<lparr>inputs := x\<rparr>)" for x using assms by (simp add: handles_ok_def)
  then show ?thesis using Input assms by (simp add: step_def handles_ok_executedFunction)
next
  case Submit
  then show ?thesis using assms handles_ok_same [of "handleSubmit s" s]
    by (simp add: step_def handleSubmit_timers)
next
  case (Settle k r)
  then show ?thesis using assms by (simp add: step_def handles_ok_resume)
next
  case Tick
  then show ?thesis using assms by (simp add: step_def handles_ok_tick)
qed

lemma no_overdue_step:
  assumes "no_overdue s"
  shows "no_overdue (step s e)"
proof (cases e)
  case (Blur j)
  then show ?thesis using assms by (simp add: step_def validateField_sel no_overdue_def)
next
  case (Input j v)
  have "set (timers (clearTimeout h (s\<lparr>inputs := x\<rparr>))) \<subseteq> set (timers s)" for h x
    by (auto simp: clearTimeout_timers split: option.splits)
  then show ?thesis using Input assms
    by (auto simp: step_def no_overdue_def executedFunction_timers executedFunction_sel)
next
  case Submit
  then show ?thesis using assms by (simp add: step_def no_overdue_def handleSubmit_timers)
next
  case (Settle k r)
  then show ?thesis using assms by (auto simp: step_def no_overdue_def resume_timers)
next
  case Tick
  then show ?thesis by (simp add: step_def no_overdue_tick)
qed

lemma reachable_ok:
  assumes "handles_ok s" and "no_overdue s"
  shows "handles_ok (run s es) \<and> no_overdue (run s es)"
  using assms unfolding run_def
  by (induction es arbitrary: s) (simp_all add: handles_ok_step no_overdue_step)

lemma loaded_ok: "handles_ok (loaded fs b)" "no_overdue (loaded fs b)"
  by (simp_all add: handles_ok_def table_ok_def no_overdue_def loaded_def)

lemma spawn_closed_refs: "spawn_closed (refs k)"
  by (simp add: spawn_closed_def refs_def)

lemma run_action_toast:
  assumes "\<not> refs k a"
  shows "toasts (run_action a s) ! k = toasts s ! k"
proof (cases a)
  case (Later j)
  then show ?thesis by (simp add: run_action_def later_sel)
next
  case (ToastShow j)
  then have "j \<noteq> k" using assms by (auto simp: refs_def)
  then show ?thesis using ToastShow by (simp add: run_action_def map_at_def)
next
  case (ToastHide j)
  then have "j \<noteq> k" using assms by (auto simp: refs_def)
  then show ?thesis using ToastHide by (simp add: run_action_def map_at_def setTimeout_sel)
next
  case (ToastRemove j)
  then have "j \<noteq> k" using assms by (auto simp: refs_def)
  then show ?thesis using ToastRemove by (simp add: run_action_def map_at_def)
qed

lemma run_action_toasts_length: "length (toasts (run_action a s)) = length (toasts s)"
  by (cases a) (simp_all add: run_action_def later_sel setTimeout_sel)

lemma fire_toasts_length: "length (toasts (fire s t)) = length (toasts s)"
  by (simp add: fire_def run_action_toasts_length)

lemma fire_toast:
  assumes "t \<notin> set (mine (refs k) s)"
  shows "toasts (fire s t) ! k = toasts s ! k"
proof (cases "t \<in> set (timers s)")
  case True
  then have "\<not> refs k (act t)" using assms by (simp add: mine_def)
  then show ?thesis by (simp add: fire_in [OF True] run_action_toast)
next
  case False
  then show ?thesis by (simp add: fire_out)
qed

lemma foldl_fire_toast:
  assumes "handles_ok s" and "\<forall>t\<in>set ts. t \<notin> set (mine (refs k) s)"
  shows "toasts (foldl fire s ts) ! k = toasts s ! k \<and>
     mine (refs k) (foldl fire s ts) = mine (refs k) s"
  using assms
proof (induction ts arbitrary: s)
  case Nil
  show ?case by simp
next
  case (Cons t ts)
  have t: "t \<notin> set (mine (refs k) s)" using Cons.prems(2) by simp
  have m: "mine (refs k) (fire s t) = mine (refs k) s"
    using fire_others(1) [OF Cons.prems(1) spawn_closed_refs t] .
  have "toasts (foldl fire (fire s t) ts) ! k = toasts (fire s t) ! k \<and>
     mine (refs k) (foldl fire (fire s t) ts) = mine (refs k) (fire s t)"
    using Cons.prems handles_ok_fire [of s t] m by (intro Cons.IH) simp_all
  then show ?case using m fire_toast [OF t] by simp
qed

lemma foldl_fire_toasts_length: "length (toasts (foldl fire s ts)) = length (toasts s)"
  by (rule foldl_fire_frame [where g = "\<lambda>s. length (toasts s)"]) (rule fire_toasts_length)

lemma tick_split:
  assumes "t \<in> set (timers s)" and "due t \<le> Suc (clock s)"
  shows "\<exists>ys zs. tick s = foldl fire (fire (foldl fire (s\<lparr>clock := Suc (clock s)\<rparr>) ys) t) zs \<and>
     t \<notin> set ys \<and> (\<forall>u\<in>set ys. u \<in> set (timers s) \<and> due u \<le> Suc (clock s)) \<and>
     (\<forall>u\<in>set zs. u \<in> set (timers s) \<and> due u \<le> Suc (clock s))"
proof -
  let ?ts = "filter (\<lambda>t. due t \<le> Suc (clock s)) (timers s)"
  have "t \<in> set ?ts" using assms by simp
  then obtain ys zs where split: "?ts = ys @ t # zs" and ys: "t \<notin> set ys"
    by (auto dest: split_list_first)
  have "tick s = foldl fire (fire (foldl fire (s\<lparr>clock := Suc (clock s)\<rparr>) ys) t) zs"
    by (simp add: tick_def Let_def split)
  moreover have "\<forall>u\<in>set ys. u \<in> set ?ts" "\<forall>u\<in>set zs. u \<in> set ?ts"
    unfolding split by simp_all
  ultimately show ?thesis using ys by auto
qed

lemma fire_toast_timer:
  assumes "handles_ok s" and "t \<in> set (mine (refs k) s)"
  shows "toasts (fire s t) =
      (case act t of
         ToastShow j \<Rightarrow> map_at k (\<lambda>m. m\<lparr>shown := True\<rparr>) (toasts s)
       | ToastHide j \<Rightarrow> map_at k (\<lambda>m. m\<lparr>shown := False\<rparr>) (toasts s)
       | ToastRemove j \<Rightarrow> map_at k (\<lambda>m. m\<lparr>attached := False\<rparr>) (toasts s)
       | Later j \<Rightarrow> toasts s)"
    and "mine (refs k) (fire s t) =
      filter (\<lambda>u. u \<noteq> t) (mine (refs k) s) @
      (case act t of
         ToastHide j \<Rightarrow> [\<lparr>handle = nextHandle s, due = clock s + 300, act = ToastRemove k\<rparr>]
       | _ \<Rightarrow> [])"
proof -
  have t: "t \<in> set (timers s)" and r: "refs k (act t)" using assms(2) by (simp_all add: mine_def)
  have "\<forall>u\<in>set (timers s). (handle u \<noteq> handle t) = (u \<noteq> t)"
    using only_handle [OF assms(1) t] by auto
  then have f: "filter (\<lambda>u. refs k (act u) \<and> handle u \<noteq> handle t) (timers s) =
      filter (\<lambda>u. refs k (act u) \<and> u \<noteq> t) (timers s)"
    by (intro filter_cong) auto
  show "toasts (fire s t) =
      (case act t of
         ToastShow j \<Rightarrow> map_at k (\<lambda>m. m\<lparr>shown := True\<rparr>) (toasts s)
       | ToastHide j \<Rightarrow> map_at k (\<lambda>m. m\<lparr>shown := False\<rparr>) (toasts s)
       | ToastRemove j \<Rightarrow> map_at k (\<lambda>m. m\<lparr>attached := False\<rparr>) (toasts s)
       | Later j \<Rightarrow> toasts s)"
    using r by (auto simp: fire_in [OF t] refs_def run_action_def setTimeout_sel)
  show "mine (refs k) (fire s t) =
      filter (\<lambda>u. u \<noteq> t) (mine (refs k) s) @
      (case act t of
         ToastHide j \<Rightarrow> [\<lparr>handle = nextHandle s, due = clock s + 300, act = ToastRemove k\<rparr>]
       | _ \<Rightarrow> [])"
    using r f
    by (auto simp: fire_in [OF t] refs_def run_action_def setTimeout_sel mine_def conj_commute)
qed

lemma tick_no_due:
  assumes "handles_ok s" and "\<forall>t\<in>set (mine (refs k) s). Suc (clock s) < due t"
  shows "toasts (tick s) ! k = toasts s ! k" and "mine (refs k) (tick s) = mine (refs k) s"
proof -
  let ?s1 = "s\<lparr>clock := Suc (clock s)\<rparr>"
  let ?ts = "filter (\<lambda>t. due t \<le> clock ?s1) (timers ?s1)"
  have ok: "handles_ok ?s1" using assms(1) by (simp add: handles_ok_clock)
  have "\<forall>u\<in>set ?ts. u \<notin> set (mine (refs k) ?s1)"
    using assms(2) by (auto simp: mine_clock)
  with ok have "toasts (foldl fire ?s1 ?ts) ! k = toasts ?s1 ! k \<and>
     mine (refs k) (foldl fire ?s1 ?ts) = mine (refs k) ?s1"
    by (rule foldl_fire_toast)
  then show "toasts (tick s) ! k = toasts s ! k" and "mine (refs k) (tick s) = mine (refs k) s"
    by (simp_all add: tick_def Let_def mine_clock)
qed

lemma tick_due:
  assumes "handles_ok s" and "t \<in> set (mine (refs k) s)" and "due t \<le> Suc (clock s)"
    and "\<forall>u\<in>set (mine (refs k) s). u \<noteq> t \<longrightarrow> Suc (clock s) < due u"
    and "k < length (toasts s)"
  shows "toasts (tick s) ! k =
      (case act t of
         ToastShow j \<Rightarrow> (toasts s ! k)\<lparr>shown := True\<rparr>
       | ToastHide j \<Rightarrow> (toasts s ! k)\<lparr>shown := False\<rparr>
       | ToastRemove j \<Rightarrow> (toasts s ! k)\<lparr>attached := False\<rparr>
       | Later j \<Rightarrow> toasts s ! k)"
    and "map (\<lambda>t. (due t, act t)) (mine (refs k) (tick s)) =
      map (\<lambda>t. (due t, act t)) (filter (\<lambda>u. u \<noteq> t) (mine (refs k) s)) @
      (case act t of
         ToastHide j \<Rightarrow> [(Suc (clock s) + 300, ToastRemove k)]
       | _ \<Rightarrow> [])"
proof -
  let ?s1 = "s\<lparr>clock := Suc (clock s)\<rparr>"
  have tt: "t \<in> set (timers s)" using assms(2) by (simp add: mine_def)
  obtain ys zs where
    split: "tick s = foldl fire (fire (foldl fire ?s1 ys) t) zs" and
    ys: "t \<notin> set ys" "\<forall>u\<in>set ys. u \<in> set (timers s) \<and> due u \<le> Suc (clock s)" and
    zs: "\<forall>u\<in>set zs. u \<in> set (timers s) \<and> due u \<le> Suc (clock s)"
    using tick_split [OF tt assms(3)] by blast
  let ?sa = "foldl fire ?s1 ys"
  let ?sb = "fire ?sa t"
  have ok1: "handles_ok ?s1" using assms(1) by (simp add: handles_ok_clock)
  have "\<forall>u\<in>set ys. u \<notin> set (mine (refs k) ?s1)"
  proof
    fix u assume u: "u \<in> set ys"
    then have "u \<noteq> t" and "due u \<le> Suc (clock s)" using ys by auto
    then show "u \<notin> set (mine (refs k) ?s1)"
      using assms(4) by (auto simp: mine_clock)
  qed
  with ok1 have a: "toasts ?sa ! k = toasts ?s1 ! k \<and> mine (refs k) ?sa = mine (refs k) ?s1"
    by (rule foldl_fire_toast)
  have oka: "handles_ok ?sa" using ok1 by (rule handles_ok_foldl_fire)
  have ca: "clock ?sa = Suc (clock s)"
    by (simp add: foldl_fire_frame [where g = clock] fire_sel)
  have la: "length (toasts ?sa) = length (toasts s)"
    by (simp add: foldl_fire_toasts_length)
  have ta: "t \<in> set (mine (refs k) ?sa)" using a assms(2) by (simp add: mine_clock)
  have tb: "toasts ?sb =
      (case act t of
         ToastShow j \<Rightarrow> map_at k (\<lambda>m. m\<lparr>shown := True\<rparr>) (toasts ?sa)
       | ToastHide j \<Rightarrow> map_at k (\<lambda>m. m\<lparr>shown := False\<rparr>) (toasts ?sa)
       | ToastRemove j \<Rightarrow> map_at k (\<lambda>m. m\<lparr>attached := False\<rparr>) (toasts ?sa)
       | Later j \<Rightarrow> toasts ?sa)"
    and mb: "mine (refs k) ?sb =
      filter (\<lambda>u. u \<noteq> t) (mine (refs k) ?sa) @
      (case act t of
         ToastHide j \<Rightarrow> [\<lparr>handle = nextHandle ?sa, due = clock ?sa + 300, act = ToastRemove k\<rparr>]
       | _ \<Rightarrow> [])"
    using fire_toast_timer [OF oka ta] by simp_all
  have okb: "handles_ok ?sb" using oka by (rule handles_ok_fire)
  have "\<forall>u\<in>set zs. u \<notin> set (mine (refs k) ?sb)"
  proof
    fix u assume u: "u \<in> set zs"
    then have du: "due u \<le> Suc (clock s)" using zs by simp
    show "u \<notin> set (mine (refs k) ?sb)"
    proof
      assume "u \<in> set (mine (refs k) ?sb)"
      then have "(u \<in> set (mine (refs k) s) \<and> u \<noteq> t) \<or> due u = Suc (clock s) + 300"
        unfolding mb using a ca by (auto simp: mine_clock split: action.splits)
      then show False using du assms(4) by auto
    qed
  qed
  with okb have b: "toasts (foldl fire ?sb zs) ! k = toasts ?sb ! k \<and>
     mine (refs k) (foldl fire ?sb zs) = mine (refs k) ?sb"
    by (rule foldl_fire_toast)
  show "toasts (tick s) ! k =
      (case act t of
         ToastShow j \<Rightarrow> (toasts s ! k)\<lparr>shown := True\<rparr>
       | ToastHide j \<Rightarrow> (toasts s ! k)\<lparr>shown := False\<rparr>
       | ToastRemove j \<Rightarrow> (toasts s ! k)\<lparr>attached := False\<rparr>
       | Later j \<Rightarrow> toasts s ! k)"
    using b tb a la assms(5) by (simp add: split map_at_def split: action.split)
  show "map (\<lambda>t. (due t, act t)) (mine (refs k) (tick s)) =
      map (\<lambda>t. (due t, act t)) (filter (\<lambda>u. u \<noteq> t) (mine (refs k) s)) @
      (case act t of
         ToastHide j \<Rightarrow> [(Suc (clock s) + 300, ToastRemove k)]
       | _ \<Rightarrow> [])"
    using b mb a ca by (simp add: split mine_clock split: action.split)
qed

lemma map_two:
  assumes "map f M = [a, b]"
  obtains t1 t2 where "M = [t1, t2]" "f t1 = a" "f t2 = b"
  using assms by (auto simp: map_eq_Cons_conv)

lemma map_one:
  assumes "map f M = [a]"
  obtains t1 where "M = [t1]" "f t1 = a"
  using assms by (auto simp: map_eq_Cons_conv)

lemma toasts_length_tick: "length (toasts (tick s)) = length (toasts s)"
  by (simp add: tick_def Let_def foldl_fire_toasts_length)

lemma stageI:
  assumes "k < length (toasts s)" and "clock s = T + d"
    and "toasts s ! k = \<lparr>ttext = x, tclass = c, shown = (100 \<le> d \<and> d < 3000), attached = (d < 3300)\<rparr>"
    and "map (\<lambda>t. (due t, act t)) (mine (refs k) s) = plan T k d"
  shows "stage T k x c s"
  using assms by (simp add: stage_def)

lemma stageD:
  assumes "stage T k x c s"
  obtains d where "clock s = T + d" "k < length (toasts s)"
    "toasts s ! k = \<lparr>ttext = x, tclass = c, shown = (100 \<le> d \<and> d < 3000), attached = (d < 3300)\<rparr>"
    "map (\<lambda>t. (due t, act t)) (mine (refs k) s) = plan T k d"
proof -
  have "T \<le> clock s" using assms by (simp add: stage_def)
  then obtain d where d: "clock s = T + d" by (auto simp: le_iff_add)
  then have "clock s - T = d" by simp
  with assms d that show ?thesis by (simp add: stage_def)
qed

lemma tick_stage:
  assumes "handles_ok s" and "stage T k x c s" and "no_overdue s"
  shows "stage T k x c (tick s)"
proof -
  obtain d where cl: "clock s = T + d" and k: "k < length (toasts s)"
    and rec: "toasts s ! k =
      \<lparr>ttext = x, tclass = c, shown = (100 \<le> d \<and> d < 3000), attached = (d < 3300)\<rparr>"
    and pl: "map (\<lambda>t. (due t, act t)) (mine (refs k) s) = plan T k d"
    using assms(2) by (rule stageD)
  have k': "k < length (toasts (tick s))" using k by (simp add: toasts_length_tick)
  have cl': "clock (tick s) = T + Suc d" using cl by (simp add: tick_sel)
  consider (appear) "d = 99" | (hide) "d = 2999" | (remove) "d = 3299"
    | (rest) "d \<noteq> 99" "d \<noteq> 2999" "d \<noteq> 3299" by blast
  then show ?thesis
  proof cases
    case appear
    then have "map (\<lambda>t. (due t, act t)) (mine (refs k) s) =
        [(T + 100, ToastShow k), (T + 3000, ToastHide k)]"
      using pl by (simp add: plan_def)
    then obtain t1 t2 where M: "mine (refs k) s = [t1, t2]"
      and t1: "due t1 = T + 100" "act t1 = ToastShow k"
      and t2: "due t2 = T + 3000" "act t2 = ToastHide k"
      by (rule map_two) auto
    have ne: "t2 \<noteq> t1" using t1 t2 by auto
    have "toasts (tick s) ! k = (toasts s ! k)\<lparr>shown := True\<rparr>"
      and "map (\<lambda>t. (due t, act t)) (mine (refs k) (tick s)) = [(T + 3000, ToastHide k)]"
      using tick_due [OF assms(1), of t1 k] M t1 t2 ne cl appear k by simp_all
    then show ?thesis
      using appear rec by (intro stageI [OF k' cl']) (simp_all add: plan_def)
  next
    case hide
    then have "map (\<lambda>t. (due t, act t)) (mine (refs k) s) = [(T + 3000, ToastHide k)]"
      using pl by (simp add: plan_def)
    then obtain t1 where M: "mine (refs k) s = [t1]"
      and t1: "due t1 = T + 3000" "act t1 = ToastHide k"
      by (rule map_one) auto
    have "toasts (tick s) ! k = (toasts s ! k)\<lparr>shown := False\<rparr>"
      and "map (\<lambda>t. (due t, act t)) (mine (refs k) (tick s)) = [(T + 3300, ToastRemove k)]"
      using tick_due [OF assms(1), of t1 k] M t1 cl hide k by simp_all
    then show ?thesis
      using hide rec by (intro stageI [OF k' cl']) (simp_all add: plan_def)
  next
    case remove
    then have "map (\<lambda>t. (due t, act t)) (mine (refs k) s) = [(T + 3300, ToastRemove k)]"
      using pl by (simp add: plan_def)
    then obtain t1 where M: "mine (refs k) s = [t1]"
      and t1: "due t1 = T + 3300" "act t1 = ToastRemove k"
      by (rule map_one) auto
    have "toasts (tick s) ! k = (toasts s ! k)\<lparr>attached := False\<rparr>"
      and "map (\<lambda>t. (due t, act t)) (mine (refs k) (tick s)) = []"
      using tick_due [OF assms(1), of t1 k] M t1 cl remove k by simp_all
    then show ?thesis
      using remove rec by (intro stageI [OF k' cl']) (simp_all add: plan_def)
  next
    case rest
    have "\<forall>t\<in>set (mine (refs k) s). Suc (clock s) < due t"
    proof
      fix t assume "t \<in> set (mine (refs k) s)"
      then have "(due t, act t) \<in> set (map (\<lambda>t. (due t, act t)) (mine (refs k) s))" by simp
      then have "(due t, act t) \<in> set (plan T k d)" using pl by simp
      moreover have "clock s < due t"
        using assms(3) \<open>t \<in> set (mine (refs k) s)\<close> by (simp add: no_overdue_def mine_def)
      ultimately show "Suc (clock s) < due t"
        using rest cl by (auto simp: plan_def split: if_splits)
    qed
    then have "toasts (tick s) ! k = toasts s ! k"
      and "mine (refs k) (tick s) = mine (refs k) s"
      using tick_no_due [OF assms(1), of k] by simp_all
    moreover have "plan T k (Suc d) = plan T k d"
      using rest by (auto simp: plan_def)
    moreover have "(100 \<le> Suc d \<and> Suc d < 3000) = (100 \<le> d \<and> d < 3000)" "(Suc d < 3300) = (d < 3300)"
      using rest by auto
    ultimately show ?thesis
      using rec pl by (intro stageI [OF k' cl']) simp_all
  qed
qed

lemma stage_same:
  assumes "stage T k x c s" and "clock s' = clock s" and "toasts s' ! k = toasts s ! k"
    and "length (toasts s) \<le> length (toasts s')" and "mine (refs k) s' = mine (refs k) s"
  shows "stage T k x c s'"
  using assms by (simp add: stage_def)

lemma not_refs_later: "\<not> refs k (Later j)"
  by (simp add: refs_def)

lemma step_stage:
  assumes "handles_ok s" and "no_overdue s" and "stage T k x c s"
  shows "stage T k x c (step s e)"
proof (cases e)
  case (Blur j)
  show ?thesis
  proof (cases "j < length (inputs s)")
    case True
    have "stage T k x c (snd (validateField j s))"
      using assms(3) by (rule stage_same) (simp_all add: validateField_sel mine_def)
    then show ?thesis using Blur True by (simp add: step_def)
  next
    case False
    then show ?thesis using Blur assms(3) by (simp add: step_def)
  qed
next
  case (Input j v)
  show ?thesis
  proof (cases "j < length (inputs s)")
    case True
    let ?s0 = "s\<lparr>inputs := map_at j (\<lambda>f. f\<lparr>fvalue := v\<rparr>) (inputs s)\<rparr>"
    have ok0: "handles_ok ?s0" using assms(1) by (simp add: handles_ok_def)
    have "mine (refs k) (clearTimeout (debounceTimeout ?s0 j) ?s0) = mine (refs k) ?s0"
      using ok0 not_refs_later by (rule clear_others)
    then have m: "mine (refs k) (executedFunction j ?s0) = mine (refs k) s"
      by (simp add: mine_def executedFunction_timers refs_def)
    have "stage T k x c (executedFunction j ?s0)"
      using assms(3) by (rule stage_same) (simp_all add: executedFunction_sel m)
    then show ?thesis using Input True by (simp add: step_def)
  next
    case False
    then show ?thesis using Input assms(3) by (simp add: step_def)
  qed
next
  case Submit
  have "stage T k x c (handleSubmit s)"
    using assms(3) by (rule stage_same) (simp_all add: handleSubmit_timers mine_def)
  then show ?thesis using Submit by (simp add: step_def)
next
  case (Settle j r)
  show ?thesis
  proof (cases "j < length (pending s)")
    case True
    have k: "k < length (toasts s)" using assms(3) by (simp add: stage_def)
    have "stage T k x c (resume j r s)"
      using assms(3)
    proof (rule stage_same)
      show "clock (resume j r s) = clock s" by (simp add: resume_timers)
      show "toasts (resume j r s) ! k = toasts s ! k"
        using k by (simp add: resume_sel(5) [OF True] nth_append)
      show "length (toasts s) \<le> length (toasts (resume j r s))"
        by (simp add: resume_sel(5) [OF True])
      show "mine (refs k) (resume j r s) = mine (refs k) s"
        using k True by (simp add: mine_def resume_timers refs_def)
    qed
    then show ?thesis using Settle by (simp add: step_def)
  next
    case False
    then show ?thesis using Settle assms(3) by (simp add: step_def resume_def)
  qed
next
  case Tick
  then show ?thesis using tick_stage [OF assms(1,3,2)] by (simp add: step_def)
qed

lemma run_stage:
  assumes "handles_ok s" and "no_overdue s" and "stage T k x c s"
  shows "stage T k x c (run s es)"
  using assms unfolding run_def
proof (induction es arbitrary: s)
  case Nil
  then show ?case by simp
next
  case (Cons e es)
  have "handles_ok (step s e)" "no_overdue (step s e)" "stage T k x c (step s e)"
    using Cons.prems by (simp_all add: handles_ok_step no_overdue_step step_stage)
  then show ?case using Cons.IH [of "step s e"] by simp
qed

lemma no_overdue_showMessage: "no_overdue s \<Longrightarrow> no_overdue (showMessage x y s)"
  by (auto simp: no_overdue_def showMessage_sel)

lemma showMessage_stage:
  assumes "mine (refs (length (toasts s))) s = []"
  shows "stage (clock s) (length (toasts s)) x (js ''form-message '' @ y) (showMessage x y s)"
  using assms
  by (simp add: stage_def showMessage_sel mine_def plan_def refs_def)

lemma toast_timeline:
  assumes "handles_ok s" and "no_overdue s" and "mine (refs (length (toasts s))) s = []"
  shows "length (toasts s) < length (toasts (run (showMessage x y s) es)) \<and>
     clock s \<le> clock (run (showMessage x y s) es) \<and>
     toasts (run (showMessage x y s) es) ! length (toasts s) =
       \<lparr>ttext = x, tclass = js ''form-message '' @ y,
        shown = (100 \<le> clock (run (showMessage x y s) es) - clock s \<and>
                 clock (run (showMessage x y s) es) - clock s < 3000),
        attached = (clock (run (showMessage x y s) es) - clock s < 3300)\<rparr>"
proof -
  have "stage (clock s) (length (toasts s)) x (js ''form-message '' @ y)
      (run (showMessage x y s) es)"
    using handles_ok_showMessage [OF assms(1)] no_overdue_showMessage [OF assms(2)]
      showMessage_stage [OF assms(3)]
    by (rule run_stage)
  then show ?thesis by (simp add: stage_def)
qed

lemma clock_ticks: "clock (run s (replicate n Tick)) = clock s + n"
  by (induction n arbitrary: s) (simp_all add: run_Nil run_Tick tick_sel)

lemma watched_clock: "watched i (s\<lparr>clock := c\<rparr>) = watched i s"
  by (simp add: watched_def own_containers_def)

lemma run_watched:
  assumes "watched i s"
  shows "watched i (run s es)"
  using assms unfolding run_def
  by (induction es arbitrary: s) (simp_all add: step_watched)

lemma tick_fire_sync:
  assumes "armed i D s" and "Suc (clock s) = D" and "watched i s"
  shows "in_sync (tick s) i"
proof -
  let ?s1 = "s\<lparr>clock := Suc (clock s)\<rparr>"
  obtain t where t: "mine (is_later i) s = [t]" and d: "due t = D"
    using assms(1) by (auto simp: armed_def)
  have "t \<in> set (mine (is_later i) s)" using t by simp
  then have tt: "t \<in> set (timers s)" and a: "act t = Later i"
    by (simp_all add: mine_def is_later_def)
  have "due t \<le> Suc (clock s)" using d assms(2) by simp
  with tt obtain ys zs where
    split: "tick s = foldl fire (fire (foldl fire ?s1 ys) t) zs" and ys: "t \<notin> set ys"
    using tick_split [of t s] by blast
  let ?sa = "foldl fire ?s1 ys"
  have ok1: "handles_ok ?s1" using assms(1) by (simp add: armed_def handles_ok_clock)
  have m1: "mine (is_later i) ?s1 = [t]" using t by (simp add: mine_clock)
  have "\<forall>u\<in>set ys. u \<notin> set (mine (is_later i) ?s1)" using ys by (auto simp: m1)
  with ok1 spawn_closed_later have "mine (is_later i) ?sa = mine (is_later i) ?s1 \<and>
     logged (is_later i) ?sa = logged (is_later i) ?s1"
    by (rule foldl_fire_others)
  then have "t \<in> set (mine (is_later i) ?sa)" using m1 by simp
  then have ta: "t \<in> set (timers ?sa)" by (simp add: mine_def)
  have w1: "watched i ?s1" using assms(3) by (simp add: watched_clock)
  have wa: "watched i ?sa" using foldl_fire_sync [OF w1] by simp
  let ?s0 = "?sa\<lparr>timers := filter (\<lambda>u. handle u \<noteq> handle t) (timers ?sa),
          fired := fired ?sa @ [(clock ?sa, act t)]\<rparr>"
  have d0: "inputs ?s0 = inputs ?sa" "fieldErrors ?s0 = fieldErrors ?sa" by simp_all
  have w0: "watched i ?s0" using wa same_display(1) [OF d0] by simp
  then have i0: "i < length (inputs ?s0)" by (simp add: watched_def)
  have "fire ?sa t = later i ?s0"
    using i0 a by (simp add: fire_in [OF ta] run_action_def)
  moreover have "in_sync (later i ?s0) i" using later_sync(2) [OF w0 i0] by simp
  moreover have "watched i (later i ?s0)" using w0 i0 by (rule later_sync(1))
  ultimately have "watched i (fire ?sa t)" "in_sync (fire ?sa t) i" by simp_all
  then show ?thesis using foldl_fire_sync [of i "fire ?sa t" zs] by (simp add: split)
qed



lemma text_field_sel:
  "parent (text_field n v d r p) = p" "fvalue (text_field n v d r p) = js v"
  "fdefault (text_field n v d r p) = js d" "fname (text_field n v d r p) = js n"
  "parent ((text_field n v d r p)\<lparr>errorClass := b\<rparr>) = p"
  by (simp_all add: text_field_def)



lemma loaded_fired: "fired (loaded fs b) = []"
  by (simp add: loaded_def)

lemma pace_same:
  assumes "fired s' = fired s" and "validated s' = validated s"
  shows "pace i s s'"
proof -
  have "logged (is_later i) s' = logged (is_later i) s @ map (\<lambda>c. (c, Later i)) [] \<and>
      calls i s' = calls i s @ map (\<lambda>c. (c, i)) []"
    using assms by (simp add: logged_def calls_def)
  then show ?thesis unfolding pace_def by blast
qed

lemma pace_trans:
  assumes "pace i s s'" and "pace i s' s''"
  shows "pace i s s''"
proof -
  obtain cs where cs: "logged (is_later i) s' = logged (is_later i) s @ map (\<lambda>c. (c, Later i)) cs"
      "calls i s' = calls i s @ map (\<lambda>c. (c, i)) cs"
    using assms(1) unfolding pace_def by blast
  obtain ds where ds: "logged (is_later i) s'' = logged (is_later i) s' @ map (\<lambda>c. (c, Later i)) ds"
      "calls i s'' = calls i s' @ map (\<lambda>c. (c, i)) ds"
    using assms(2) unfolding pace_def by blast
  have "logged (is_later i) s'' = logged (is_later i) s @ map (\<lambda>c. (c, Later i)) (cs @ ds) \<and>
      calls i s'' = calls i s @ map (\<lambda>c. (c, i)) (cs @ ds)"
    using cs ds by simp
  then show ?thesis unfolding pace_def by blast
qed

lemma validated_sel:
  "validated (clearTimeout h s) = validated s"
  "validated (snd (setTimeout a ms s)) = validated s"
  "validated (snd (validateField j s)) = validated s @ [(clock s, j)]"
  "validated (later j s) = validated s @ [(clock s, j)]"
  "validated (executedFunction j s) = validated s"
  by (simp_all add: clearTimeout_def setTimeout_def validateField_eq later_def
      executedFunction_def Let_def split_def split: option.split)

lemma run_action_validated:
  "validated (run_action a s) =
     (case a of Later j \<Rightarrow> if j < length (inputs s) then validated s @ [(clock s, j)] else validated s
      | _ \<Rightarrow> validated s)"
  by (simp add: run_action_def validated_sel split: action.split)

lemma fire_pace:
  assumes "i < length (inputs s)"
  shows "pace i s (fire s t)"
proof (cases "t \<in> set (timers s)")
  case False
  then show ?thesis by (simp add: fire_def pace_same)
next
  case True
  let ?s0 = "s\<lparr>timers := filter (\<lambda>u. handle u \<noteq> handle t) (timers s),
          fired := fired s @ [(clock s, act t)]\<rparr>"
  have f: "fire s t = run_action (act t) ?s0" using True by (rule fire_in)
  have fl: "fired (fire s t) = fired s @ [(clock s, act t)]"
    by (simp add: f run_action_sel)
  show ?thesis
  proof (cases "act t = Later i")
    case True
    have "validated (fire s t) = validated s @ [(clock s, i)]"
      using assms True by (simp add: f run_action_validated)
    then have "logged (is_later i) (fire s t) =
        logged (is_later i) s @ map (\<lambda>c. (c, Later i)) [clock s] \<and>
      calls i (fire s t) = calls i s @ map (\<lambda>c. (c, i)) [clock s]"
      using fl True by (simp add: logged_def calls_def is_later_def)
    then show ?thesis unfolding pace_def by blast
  next
    case False
    have "calls i (fire s t) = calls i s"
      using False by (cases "act t") (simp_all add: f run_action_validated calls_def)
    then have "logged (is_later i) (fire s t) =
        logged (is_later i) s @ map (\<lambda>c. (c, Later i)) [] \<and>
      calls i (fire s t) = calls i s @ map (\<lambda>c. (c, i)) []"
      using fl False by (simp add: logged_def is_later_def)
    then show ?thesis unfolding pace_def by blast
  qed
qed

lemma foldl_fire_pace:
  "i < length (inputs s) \<Longrightarrow> pace i s (foldl fire s ts)"
proof (induction ts arbitrary: s)
  case Nil
  show ?case by (simp add: pace_same)
next
  case (Cons t ts)
  have "pace i s (fire s t)" using Cons.prems by (rule fire_pace)
  moreover have "pace i (fire s t) (foldl fire (fire s t) ts)"
    using Cons.prems by (intro Cons.IH) (simp add: length_inputs_fire)
  ultimately show ?case using pace_trans by simp
qed

lemma tick_pace:
  assumes "i < length (inputs s)"
  shows "pace i s (tick s)"
proof -
  let ?s1 = "s\<lparr>clock := Suc (clock s)\<rparr>"
  have "pace i s ?s1" by (rule pace_same) simp_all
  moreover have "pace i ?s1 (tick s)"
    unfolding tick_def Let_def using assms by (intro foldl_fire_pace) simp
  ultimately show ?thesis by (rule pace_trans)
qed

lemma step_pace:
  assumes "i < length (inputs s)" and "typing e"
  shows "pace i s (step s e)" and "i < length (inputs (step s e))"
proof -
  show "pace i s (step s e)"
  proof (cases e)
    case (Input j v)
    then show ?thesis
      by (intro pace_same) (simp_all add: step_def executedFunction_sel validated_sel)
  next
    case Tick
    then show ?thesis using tick_pace [OF assms(1)] by (simp add: step_def)
  qed (use assms(2) in \<open>simp_all add: typing_def\<close>)
  show "i < length (inputs (step s e))"
    using assms
    by (cases e) (simp_all add: typing_def step_def executedFunction_sel length_inputs_tick map_at_def)
qed

lemma run_pace:
  "i < length (inputs s) \<Longrightarrow> \<forall>e\<in>set es. typing e \<Longrightarrow> pace i s (run s es)"
proof (induction es arbitrary: s)
  case Nil
  show ?case by (simp add: run_Nil pace_same)
next
  case (Cons e es)
  have e: "typing e" using Cons.prems(2) by simp
  have "pace i s (step s e)" using Cons.prems(1) e by (rule step_pace)
  moreover have "pace i (step s e) (run (step s e) es)"
    using Cons.prems step_pace(2) [OF Cons.prems(1) e] by (intro Cons.IH) simp_all
  ultimately show ?case using pace_trans by (simp add: run_Cons)
qed

lemma typing_burst: "\<forall>e\<in>set (Input i v0 # keystrokes i gvs @ replicate d Tick). typing e"
  by (auto simp: keystrokes_def typing_def)

lemma pace_calls:
  assumes "pace i s s'" and "logged (is_later i) s' = logged (is_later i) s @ (if b then [(T, Later i)] else [])"
  shows "calls i s' = calls i s @ (if b then [(T, i)] else [])"
proof -
  obtain cs where cs: "logged (is_later i) s' = logged (is_later i) s @ map (\<lambda>c. (c, Later i)) cs"
      "calls i s' = calls i s @ map (\<lambda>c. (c, i)) cs"
    using assms(1) unfolding pace_def by blast
  have "map (\<lambda>c. (c, Later i)) cs = (if b then [(T, Later i)] else [])"
    using cs(1) assms(2) by simp
  then have "cs = (if b then [T] else [])"
    by (cases b; cases cs) (auto split: if_splits)
  then show ?thesis using cs(2) by simp
qed

lemma quiet_period_sync:
  assumes "armed i (clock s + 300) s" and "watched i s" and "300 \<le> d"
  shows "in_sync (run s (replicate d Tick)) i"
proof -
  obtain r where "d = 300 + r" using assms(3) by (auto simp: le_iff_add)
  then have d: "d = 299 + Suc r" by simp
  let ?s1 = "run s (replicate 299 Tick)"
  have w: "armed i (clock s + 300) ?s1 \<and> logged (is_later i) ?s1 = logged (is_later i) s \<and>
     clock ?s1 = clock s + 299"
    using assms(1) by (intro ticks_wait) simp_all
  then have due: "Suc (clock ?s1) = clock s + 300" by simp
  have w1: "watched i ?s1" using assms(2) by (rule run_watched)
  have a1: "armed i (clock s + 300) ?s1" using w by simp
  have "watched i (tick ?s1)" using step_watched [OF w1, of Tick] by (simp add: step_def)
  moreover have "in_sync (tick ?s1) i" using a1 due w1 by (rule tick_fire_sync)
  moreover have "\<forall>e\<in>set (replicate r Tick). \<not> disturbs i e" by (simp add: disturbs_def)
  ultimately have "in_sync (run (tick ?s1) (replicate r Tick)) i" by (rule run_sync)
  moreover have "run s (replicate d Tick) = run (tick ?s1) (replicate r Tick)"
    unfolding d by (simp only: replicate_add run_append replicate_Suc run_Tick)
  ultimately show ?thesis by simp
qed

text \<open>
  C8.  Control \<open>i\<close> is edited, then edited again any number of times, each edit less than
  300 ms after the one before, and then left alone for \<open>d\<close> ms.  In all that time the
  debounced callback of the control runs exactly once if \<open>d\<close> is at least 300, at the
  moment 300 ms after the last edit, and does not run at all if \<open>d\<close> is less: every edit
  clears the pending timer and sets a new one.  \<^verbatim>\<open>validateField\<close> is called on the control
  at that moment and at no other; if the controls have parents of their own, the control
  then shows the verdict on the value the last edit gave it.
\<close>

theorem debounce_trailing_edge:
  assumes "handles_ok s" and "no_overdue s" and "i < length (inputs s)"
    and "\<forall>(g, v)\<in>set gvs. g < 300"
  shows "logged (is_later i) (run s (Input i v0 # keystrokes i gvs @ replicate d Tick)) =
     logged (is_later i) s @
       (if 300 \<le> d then [(clock s + sum_list (map fst gvs) + 300, Later i)] else []) \<and>
   calls i (run s (Input i v0 # keystrokes i gvs @ replicate d Tick)) =
     calls i s @
       (if 300 \<le> d then [(clock s + sum_list (map fst gvs) + 300, i)] else []) \<and>
   (300 \<le> d \<and> own_containers s \<longrightarrow>
      in_sync (run s (Input i v0 # keystrokes i gvs @ replicate d Tick)) i)"
proof -
  let ?B = "Input i v0 # keystrokes i gvs @ replicate d Tick"
  let ?s1 = "step s (Input i v0)"
  have a1: "armed i (clock ?s1 + 300) ?s1" and l1: "logged (is_later i) ?s1 = logged (is_later i) s"
    and c1: "clock ?s1 = clock s"
    using input_arms [OF assms(1-3), of v0] by simp_all
  let ?s2 = "run ?s1 (keystrokes i gvs)"
  have b: "armed i (clock ?s1 + sum_list (map fst gvs) + 300) ?s2 \<and>
     logged (is_later i) ?s2 = logged (is_later i) ?s1 \<and>
     clock ?s2 = clock ?s1 + sum_list (map fst gvs)"
    using a1 assms(4) by (rule burst_rearms)
  then have a2: "armed i (clock ?s2 + 300) ?s2" by simp
  then have "logged (is_later i) (run ?s2 (replicate d Tick)) =
     logged (is_later i) ?s2 @ (if 300 \<le> d then [(clock ?s2 + 300, Later i)] else [])"
    by (rule quiet_period)
  moreover have r: "run s ?B = run ?s2 (replicate d Tick)"
    by (simp add: run_Cons run_append)
  ultimately have l: "logged (is_later i) (run s ?B) =
     logged (is_later i) s @
       (if 300 \<le> d then [(clock s + sum_list (map fst gvs) + 300, Later i)] else [])"
    using b l1 c1 by simp
  have "pace i s (run s ?B)" using assms(3) typing_burst by (rule run_pace)
  then have c: "calls i (run s ?B) =
     calls i s @ (if 300 \<le> d then [(clock s + sum_list (map fst gvs) + 300, i)] else [])"
    using l by (rule pace_calls)
  have "in_sync (run s ?B) i" if "300 \<le> d" "own_containers s"
  proof -
    have "watched i s" using that(2) assms(3) by (simp add: watched_def)
    then have "watched i ?s2" by (intro run_watched step_watched)
    with a2 have "in_sync (run ?s2 (replicate d Tick)) i" using that(1) by (rule quiet_period_sync)
    then show ?thesis by (simp only: r)
  qed
  then show ?thesis using l c by blast
qed

lemma loaded_validated: "validated (loaded fs b) = []"
  by (simp add: loaded_def)

theorem debounce_trailing_edge_witness:
  "logged (is_later 0) (run (loaded [text_field ''name'' '''' '''' True 0] None)
      (Input 0 (js ''a'') # keystrokes 0 [(100, js ''ab''), (200, [])] @
       replicate 300 Tick)) = [(600, Later 0)] \<and>
   calls 0 (run (loaded [text_field ''name'' '''' '''' True 0] None)
      (Input 0 (js ''a'') # keystrokes 0 [(100, js ''ab''), (200, [])] @
       replicate 300 Tick)) = [(600, 0)] \<and>
   in_sync (run (loaded [text_field ''name'' '''' '''' True 0] None)
      (Input 0 (js ''a'') # keystrokes 0 [(100, js ''ab''), (200, [])] @
       replicate 300 Tick)) 0"
  using debounce_trailing_edge [of "loaded [text_field ''name'' '''' '''' True 0] None" 0
      "[(100, js ''ab''), (200, [])]" "js ''a''" 300]
  by (simp add: loaded_ok loaded_sel logged_def calls_def loaded_fired loaded_validated own_containers_def
      text_field_sel)

text \<open>
  C9, amended.  A toast is created without the class \<^verbatim>\<open>show\<close>; whatever else happens on
  the page, it has the class from 100 ms after its creation until 3000 ms after its
  creation, that is for 2900 ms, and it is in the document until 3300 ms after its
  creation, 300 ms after it lost the class.
\<close>

theorem toast_lifecycle:
  assumes "handles_ok s" and "no_overdue s"
    and "\<forall>t\<in>set (timers s). \<not> refs (length (toasts s)) (act t)"
  shows "length (toasts s) < length (toasts (run (showMessage x y s) es)) \<and>
     clock s \<le> clock (run (showMessage x y s) es) \<and>
     toasts (run (showMessage x y s) es) ! length (toasts s) =
       \<lparr>ttext = x, tclass = js ''form-message '' @ y,
        shown = (100 \<le> clock (run (showMessage x y s) es) - clock s \<and>
                 clock (run (showMessage x y s) es) - clock s < 3000),
        attached = (clock (run (showMessage x y s) es) - clock s < 3300)\<rparr>"
proof -
  have "mine (refs (length (toasts s))) s = []"
    using assms(3) by (simp add: mine_def filter_empty_conv)
  with assms(1,2) show ?thesis by (rule toast_timeline)
qed

lemma loaded_fresh: "mine about (loaded fs b) = []"
  by (simp add: mine_def loaded_sel)

theorem toast_lifecycle_witness:
  "toasts (run (showMessage msg_success (js ''success'') (loaded [] None)) (replicate 1500 Tick)) ! 0 =
     \<lparr>ttext = msg_success, tclass = js ''form-message '' @ js ''success'', shown = True,
      attached = True\<rparr>"
  using toast_lifecycle [of "loaded [] None" msg_success "js ''success''" "replicate 1500 Tick"]
  by (simp add: loaded_ok loaded_sel clock_ticks showMessage_sel)

text \<open>
  C9 as stated fails 3050 ms after the creation of a toast: it became visible at 100 ms
  and would stay visible for 3000 ms, but it has lost the class \<^verbatim>\<open>show\<close> already; it is
  still in the document.
\<close>

theorem toast_hidden_early_counterexample:
  "shown (toasts (run (showMessage msg_success (js ''success'') (loaded [] None))
      (replicate 3050 Tick)) ! 0) = False \<and>
   attached (toasts (run (showMessage msg_success (js ''success'') (loaded [] None))
      (replicate 3050 Tick)) ! 0) = True"
  using toast_timeline [OF loaded_ok loaded_fresh, of "[]" None msg_success "js ''success''"
      "replicate 3050 Tick"]
  by (simp add: loaded_sel clock_ticks showMessage_sel)

lemma toast_refs_ok_subset:
  assumes "toast_refs_ok s" and "set (timers s') \<subseteq> set (timers s)"
    and "length (toasts s) \<le> length (toasts s')"
  shows "toast_refs_ok s'"
  unfolding toast_refs_ok_def
proof (intro ballI allI impI)
  fix t k assume "t \<in> set (timers s')" "refs k (act t)"
  then have "k < length (toasts s)" using assms(1,2) unfolding toast_refs_ok_def by blast
  then show "k < length (toasts s')" using assms(3) by simp
qed

lemma toast_refs_ok_run_action:
  assumes "toast_refs_ok s" and "\<forall>k. refs k a \<longrightarrow> k < length (toasts s)"
  shows "toast_refs_ok (run_action a s)"
proof (cases a)
  case (Later j)
  have "set (timers (later j s)) \<subseteq> set (timers s)"
    by (auto simp: later_timers clearTimeout_timers split: option.splits)
  with assms(1) have "toast_refs_ok (later j s)"
    by (rule toast_refs_ok_subset) (simp add: later_sel)
  then show ?thesis using Later assms(1) by (simp add: run_action_def)
next
  case (ToastShow k)
  then show ?thesis using assms(1) by (simp add: run_action_def toast_refs_ok_def)
next
  case (ToastHide k)
  then have "k < length (toasts s)" using assms(2) by (simp add: refs_def)
  then show ?thesis using ToastHide assms(1)
    by (auto simp: run_action_def toast_refs_ok_def setTimeout_sel refs_def)
next
  case (ToastRemove k)
  then show ?thesis using assms(1) by (simp add: run_action_def toast_refs_ok_def)
qed

lemma toast_refs_ok_fire:
  assumes "toast_refs_ok s"
  shows "toast_refs_ok (fire s t)"
proof (cases "t \<in> set (timers s)")
  case True
  let ?s0 = "s\<lparr>timers := filter (\<lambda>u. handle u \<noteq> handle t) (timers s),
          fired := fired s @ [(clock s, act t)]\<rparr>"
  have "toast_refs_ok ?s0" using assms by (rule toast_refs_ok_subset) simp_all
  moreover have "\<forall>k. refs k (act t) \<longrightarrow> k < length (toasts ?s0)"
    using assms True by (simp add: toast_refs_ok_def)
  ultimately show ?thesis unfolding fire_in [OF True] by (rule toast_refs_ok_run_action)
next
  case False
  then show ?thesis using assms by (simp add: fire_out)
qed

lemma toast_refs_ok_step:
  assumes "toast_refs_ok s"
  shows "toast_refs_ok (step s e)"
proof (cases e)
  case (Blur j)
  then show ?thesis using assms by (simp add: step_def toast_refs_ok_def validateField_sel)
next
  case (Input j v)
  show ?thesis
  proof (cases "j < length (inputs s)")
    case True
    let ?s0 = "s\<lparr>inputs := map_at j (\<lambda>f. f\<lparr>fvalue := v\<rparr>) (inputs s)\<rparr>"
    let ?c = "clearTimeout (debounceTimeout ?s0 j) ?s0"
    have "set (timers ?c) \<subseteq> set (timers s)"
      by (auto simp: clearTimeout_timers split: option.splits)
    with assms have c: "toast_refs_ok ?c"
      by (rule toast_refs_ok_subset) (simp add: clearTimeout_sel)
    have "toast_refs_ok (executedFunction j ?s0)"
      unfolding toast_refs_ok_def
    proof (intro ballI allI impI)
      fix t k assume t: "t \<in> set (timers (executedFunction j ?s0))" and r: "refs k (act t)"
      then have "t \<in> set (timers ?c)"
        by (auto simp: executedFunction_timers refs_def)
      then have "k < length (toasts ?c)" using c r unfolding toast_refs_ok_def by blast
      then show "k < length (toasts (executedFunction j ?s0))"
        by (simp add: executedFunction_sel clearTimeout_sel)
    qed
    then show ?thesis using Input True by (simp add: step_def)
  next
    case False
    then show ?thesis using Input assms by (simp add: step_def)
  qed
next
  case Submit
  then show ?thesis using assms by (simp add: step_def toast_refs_ok_def handleSubmit_timers)
next
  case (Settle j r)
  show ?thesis
  proof (cases "j < length (pending s)")
    case True
    then show ?thesis using Settle assms
      by (auto simp: step_def toast_refs_ok_def resume_timers resume_sel(5) refs_def)
  next
    case False
    then show ?thesis using Settle assms by (simp add: step_def resume_def)
  qed
next
  case Tick
  have "toast_refs_ok (s\<lparr>clock := Suc (clock s)\<rparr>)" using assms by (simp add: toast_refs_ok_def)
  then have "toast_refs_ok (foldl fire (s\<lparr>clock := Suc (clock s)\<rparr>) ts)" for ts
    by (induction ts arbitrary: s rule: rev_induct) (simp_all add: toast_refs_ok_fire)
  then show ?thesis using Tick by (simp add: step_def tick_def Let_def)
qed

text \<open>
  Every page that a loaded page can become satisfies the three conditions on timers that
  the properties of debounced validation and of toasts assume.
\<close>

lemma loaded_reachable:
  "handles_ok (run (loaded fs b) es) \<and> no_overdue (run (loaded fs b) es) \<and>
   (\<forall>t\<in>set (timers (run (loaded fs b) es)).
      \<not> refs (length (toasts (run (loaded fs b) es))) (act t))"
proof -
  have "toast_refs_ok (run s es)" if "toast_refs_ok s" for s
    using that unfolding run_def
    by (induction es arbitrary: s) (simp_all add: toast_refs_ok_step)
  moreover have "toast_refs_ok (loaded fs b)" by (simp add: toast_refs_ok_def loaded_sel)
  ultimately have "toast_refs_ok (run (loaded fs b) es)" by blast
  then have "\<forall>t\<in>set (timers (run (loaded fs b) es)).
      \<not> refs (length (toasts (run (loaded fs b) es))) (act t)"
    unfolding toast_refs_ok_def by blast
  then show ?thesis using reachable_ok [OF loaded_ok] by simp
qed

end
